theory Spec2Isabelle
  imports Main "HOL-Library.Sublist"
begin

section \<open>Data model\<close>

text \<open>
  Scene objects, handler functions, \<open>Interactable\<close> wrappers and handler arrays are
  JavaScript objects compared by reference.  Each is represented by an identity:
  an object and a handler by a number, a wrapper and a handler array by its
  address (index) in a store that only grows.
\<close>

type_synonym obj = nat
type_synonym hid = nat
type_synonym wref = nat
type_synonym aref = nat

text \<open>\<open>InteractEventType\<close> of \<open>events/EventTypes.ts\<close>.\<close>

datatype InteractEventType =
  Click | Dblclick | Drag | Dragstart | Dragend
  | Pointerdown | Pointerup | Pointermove | Pointerenter | Pointerleave | Wheel

text \<open>
  A \<open>THREE.Intersection\<close>: the coordinator reads only \<open>object\<close>; the distance
  is carried along (an integer stands for the number).
\<close>

record Intersection =
  distance :: int
  object :: obj

text \<open>The host's pointer or mouse event: the coordinator reads the client coordinates.\<close>

record PointerEvent =
  clientX :: int
  clientY :: int

text \<open>Class \<open>InteractEvent\<close>; \<open>etype\<close> is its field \<open>type\<close>.\<close>

record InteractEvent =
  etype :: InteractEventType
  target :: obj
  intersection :: Intersection
  originalEvent :: PointerEvent
  delta :: "int \<times> int"
  stopped :: bool

definition new_InteractEvent ::
  "InteractEventType \<Rightarrow> obj \<Rightarrow> Intersection \<Rightarrow> PointerEvent \<Rightarrow> InteractEvent" where
  "new_InteractEvent ty ob i e =
     \<lparr>etype = ty, target = ob, intersection = i, originalEvent = e,
      delta = (0, 0), stopped = False\<rparr>"

definition stopPropagation :: "InteractEvent \<Rightarrow> InteractEvent" where
  "stopPropagation ev = ev\<lparr>stopped := True\<rparr>"

text \<open>
  Class \<open>Interactable\<close>: \<open>eventHandlers\<close> maps an event type to the address of
  its handler array (\<open>wobject\<close> is the field \<open>object\<close>).
\<close>

record Interactable =
  wobject :: obj
  eventHandlers :: "InteractEventType \<rightharpoonup> aref"

text \<open>
  The fields of \<open>InteractManager\<close> that the event handling reads and writes.
  \<open>interactables\<close> and \<open>hoveredObjects\<close> are JavaScript \<open>Map\<close>s, which iterate in
  insertion order: an association list, and for \<open>hoveredObjects\<close> (whose stored value
  is always \<open>true\<close>) the list of its keys.
\<close>

record InteractManager =
  interactables :: "(obj \<times> wref) list"
  hoveredObjects :: "obj list"
  activeObject :: "obj option"
  dragObject :: "obj option"
  lastMousePosition :: "int \<times> int"

text \<open>
  The trace is an observer's record of what happened: \<open>Dispatched r ev\<close> when the
  coordinator calls \<open>dispatchEvent\<close> on wrapper \<open>r\<close> with the freshly built event \<open>ev\<close>,
  \<open>Invoked h ev\<close> when handler \<open>h\<close> is called with the event in the state \<open>ev\<close>.
  No operation of the program reads it.
\<close>

datatype entry = Dispatched wref InteractEvent | Invoked hid InteractEvent

record world =
  manager :: InteractManager
  wrappers :: "Interactable list"
  arrays :: "hid list list"
  trace :: "entry list"

text \<open>
  What a handler does when it is called: a sequence of calls of the public interface,
  which it chooses from the event and the state it is called in.
\<close>

datatype action =
  StopPropagation
  | SetDelta int int
  | On wref InteractEventType hid
  | Off wref InteractEventType "hid option"
  | RemoveAll wref
  | Add obj
  | Remove obj

type_synonym behaviour = "hid \<Rightarrow> InteractEvent \<Rightarrow> world \<Rightarrow> action list"

text \<open>
  The ray caster of three.js, fixed for the duration of one input sample:
  \<open>intersectObjects objects\<close> is the hit list among \<open>objects\<close>, nearest first,
  \<open>intersectObject ob\<close> the hits on the single object \<open>ob\<close>.
\<close>

record scene =
  intersectObjects :: "obj list \<Rightarrow> Intersection list"
  intersectObject :: "obj \<Rightarrow> Intersection list"

section \<open>Interactable\<close>

definition set_handlers :: "wref \<Rightarrow> InteractEventType \<Rightarrow> aref option \<Rightarrow> world \<Rightarrow> world" where
  "set_handlers r ty v w =
     w\<lparr>wrappers := (wrappers w)
        [r := (wrappers w ! r)\<lparr>eventHandlers := (eventHandlers (wrappers w ! r))(ty := v)\<rparr>]\<rparr>"

text \<open>\<open>on\<close>: create the array if the type has none, then push the handler.\<close>

definition on :: "wref \<Rightarrow> InteractEventType \<Rightarrow> hid \<Rightarrow> world \<Rightarrow> world" where
  "on r ty h w =
     (let w1 = (if eventHandlers (wrappers w ! r) ty = None
                then set_handlers r ty (Some (length (arrays w))) (w\<lparr>arrays := arrays w @ [[]]\<rparr>)
                else w)
      in case eventHandlers (wrappers w1 ! r) ty of
           None \<Rightarrow> w1
         | Some a \<Rightarrow> w1\<lparr>arrays := (arrays w1)[a := arrays w1 ! a @ [h]]\<rparr>)"

text \<open>\<open>Array.prototype.indexOf\<close> (\<open>None\<close> for \<open>-1\<close>) and \<open>splice(index, 1)\<close>.\<close>

fun indexOf :: "hid list \<Rightarrow> hid \<Rightarrow> nat option" where
  "indexOf [] h = None"
| "indexOf (x # xs) h = (if x = h then Some 0 else map_option Suc (indexOf xs h))"

definition splice1 :: "nat \<Rightarrow> 'a list \<Rightarrow> 'a list" where
  "splice1 i xs = take i xs @ drop (Suc i) xs"

definition off :: "wref \<Rightarrow> InteractEventType \<Rightarrow> hid option \<Rightarrow> world \<Rightarrow> world" where
  "off r ty ho w =
     (case ho of
        None \<Rightarrow> set_handlers r ty None w
      | Some h \<Rightarrow>
          (case eventHandlers (wrappers w ! r) ty of
             None \<Rightarrow> w
           | Some a \<Rightarrow>
               (let w1 = (case indexOf (arrays w ! a) h of
                            None \<Rightarrow> w
                          | Some i \<Rightarrow> w\<lparr>arrays := (arrays w)[a := splice1 i (arrays w ! a)]\<rparr>)
                in if length (arrays w1 ! a) = 0 then set_handlers r ty None w1 else w1)))"

definition removeAll_handlers :: "wref \<Rightarrow> world \<Rightarrow> world" where
  "removeAll_handlers r w =
     w\<lparr>wrappers := (wrappers w)[r := (wrappers w ! r)\<lparr>eventHandlers := Map.empty\<rparr>]\<rparr>"

section \<open>InteractManager: add and remove\<close>

definition add :: "obj \<Rightarrow> world \<Rightarrow> wref \<times> world" where
  "add ob w =
     (case map_of (interactables (manager w)) ob of
        Some r \<Rightarrow> (r, w)
      | None \<Rightarrow>
          (let r = length (wrappers w)
           in (r, w\<lparr>wrappers := wrappers w @ [\<lparr>wobject = ob, eventHandlers = Map.empty\<rparr>],
                    manager := (manager w)
                      \<lparr>interactables := interactables (manager w) @ [(ob, r)]\<rparr>\<rparr>)))"

definition remove_object :: "obj \<Rightarrow> world \<Rightarrow> world" where
  "remove_object ob w =
     w\<lparr>manager := (manager w)
        \<lparr>interactables := filter (\<lambda>p. fst p \<noteq> ob) (interactables (manager w)),
         hoveredObjects := filter (\<lambda>x. x \<noteq> ob) (hoveredObjects (manager w)),
         activeObject := (if activeObject (manager w) = Some ob then None
                          else activeObject (manager w)),
         dragObject := (if dragObject (manager w) = Some ob then None
                        else dragObject (manager w))\<rparr>\<rparr>"

section \<open>Handlers and dispatch\<close>

text \<open>
  One call of the public interface made by a handler.  A handler can only hold
  wrappers that exist, so a call on an address outside the store does nothing.
\<close>

fun exec :: "action \<Rightarrow> InteractEvent \<times> world \<Rightarrow> InteractEvent \<times> world" where
  "exec StopPropagation (ev, w) = (stopPropagation ev, w)"
| "exec (SetDelta x y) (ev, w) = (ev\<lparr>delta := (x, y)\<rparr>, w)"
| "exec (On r ty h) (ev, w) = (ev, if r < length (wrappers w) then on r ty h w else w)"
| "exec (Off r ty ho) (ev, w) = (ev, if r < length (wrappers w) then off r ty ho w else w)"
| "exec (RemoveAll r) (ev, w) =
     (ev, if r < length (wrappers w) then removeAll_handlers r w else w)"
| "exec (Add ob) (ev, w) = (ev, snd (add ob w))"
| "exec (Remove ob) (ev, w) = (ev, remove_object ob w)"

definition call :: "behaviour \<Rightarrow> hid \<Rightarrow> InteractEvent \<Rightarrow> world \<Rightarrow> InteractEvent \<times> world" where
  "call beh h ev w = fold exec (beh h ev w) (ev, w\<lparr>trace := trace w @ [Invoked h ev]\<rparr>)"

text \<open>
  \<open>handlers.forEach\<close> on the array at address \<open>a\<close>: the length is read once, before
  the first call; index \<open>k\<close> is visited if the array still has it, and the element is
  read from the array as it is then.
\<close>

function forEach ::
  "behaviour \<Rightarrow> aref \<Rightarrow> nat \<Rightarrow> nat \<Rightarrow> InteractEvent \<Rightarrow> world \<Rightarrow> InteractEvent \<times> world" where
  "forEach beh a k len ev w =
     (if k < len then
        (if k < length (arrays w ! a) then
           (case call beh (arrays w ! a ! k) ev w of
              (ev', w') \<Rightarrow> forEach beh a (Suc k) len ev' w')
         else forEach beh a (Suc k) len ev w)
      else (ev, w))"
  by pat_completeness auto
termination
  by (relation "measure (\<lambda>(beh, a, k, len, ev, w). len - k)") auto

declare forEach.simps [simp del]

definition dispatchEvent ::
  "behaviour \<Rightarrow> wref \<Rightarrow> InteractEvent \<Rightarrow> world \<Rightarrow> bool \<times> InteractEvent \<times> world" where
  "dispatchEvent beh r ev w =
     (case eventHandlers (wrappers w ! r) (etype ev) of
        None \<Rightarrow> (False, ev, w)
      | Some a \<Rightarrow>
          (case forEach beh a 0 (length (arrays w ! a)) ev w of
             (ev', w') \<Rightarrow> (0 < length (arrays w' ! a), ev', w')))"

section \<open>InteractManager: input samples\<close>

text \<open>
  The call \<open>interactable.dispatchEvent(event)\<close> made by the coordinator, with its
  record in the trace.
\<close>

definition fire ::
  "behaviour \<Rightarrow> wref \<Rightarrow> InteractEvent \<Rightarrow> world \<Rightarrow> bool \<times> InteractEvent \<times> world" where
  "fire beh r ev w = dispatchEvent beh r ev (w\<lparr>trace := trace w @ [Dispatched r ev]\<rparr>)"

text \<open>
  \<open>updatePointer\<close>: the displacement since the last sample.  The normalised device
  coordinates it also stores only feed the ray caster, which is the \<open>scene\<close> here.
\<close>

definition updatePointer :: "PointerEvent \<Rightarrow> world \<Rightarrow> (int \<times> int) \<times> world" where
  "updatePointer e w =
     (let deltaX = clientX e - fst (lastMousePosition (manager w));
          deltaY = clientY e - snd (lastMousePosition (manager w))
      in ((deltaX, deltaY),
          w\<lparr>manager := (manager w)\<lparr>lastMousePosition := (clientX e, clientY e)\<rparr>\<rparr>))"

definition performRaycast :: "scene \<Rightarrow> world \<Rightarrow> Intersection list" where
  "performRaycast sc w = intersectObjects sc (map fst (interactables (manager w)))"

definition getIntersection :: "scene \<Rightarrow> obj \<Rightarrow> Intersection" where
  "getIntersection sc ob =
     (case intersectObject sc ob of
        [] \<Rightarrow> \<lparr>distance = 0, object = ob\<rparr>
      | i # _ \<Rightarrow> i)"

text \<open>The loop of \<open>onClick\<close> over the hit list.\<close>

fun clickLoop :: "behaviour \<Rightarrow> PointerEvent \<Rightarrow> Intersection list \<Rightarrow> world \<Rightarrow> world" where
  "clickLoop beh e [] w = w"
| "clickLoop beh e (i # rest) w =
     (case map_of (interactables (manager w)) (object i) of
        None \<Rightarrow> clickLoop beh e rest w
      | Some r \<Rightarrow>
          (case fire beh r (new_InteractEvent Click (object i) i e) w of
             (b, ev, w') \<Rightarrow> if stopped ev then w' else clickLoop beh e rest w'))"

definition onClick :: "behaviour \<Rightarrow> scene \<Rightarrow> PointerEvent \<Rightarrow> world \<Rightarrow> world" where
  "onClick beh sc e w =
     (case updatePointer e w of
        (d, w0) \<Rightarrow> clickLoop beh e (performRaycast sc w0) w0)"

text \<open>The loop of \<open>onPointerDown\<close>: the targets are assigned after each dispatch.\<close>

fun downLoop :: "behaviour \<Rightarrow> PointerEvent \<Rightarrow> Intersection list \<Rightarrow> world \<Rightarrow> world" where
  "downLoop beh e [] w = w"
| "downLoop beh e (i # rest) w =
     (case map_of (interactables (manager w)) (object i) of
        None \<Rightarrow> downLoop beh e rest w
      | Some r \<Rightarrow>
          (case fire beh r (new_InteractEvent Pointerdown (object i) i e) w of
             (b, ev, w') \<Rightarrow>
               (let w'' = w'\<lparr>manager := (manager w')
                             \<lparr>dragObject := Some (object i),
                              activeObject := Some (object i)\<rparr>\<rparr>
                in if stopped ev then w'' else downLoop beh e rest w'')))"

definition onPointerDown :: "behaviour \<Rightarrow> scene \<Rightarrow> PointerEvent \<Rightarrow> world \<Rightarrow> world" where
  "onPointerDown beh sc e w =
     (case updatePointer e w of
        (d, w0) \<Rightarrow> downLoop beh e (performRaycast sc w0) w0)"

text \<open>The loop of \<open>onPointerUp\<close>.\<close>

fun upLoop :: "behaviour \<Rightarrow> PointerEvent \<Rightarrow> Intersection list \<Rightarrow> world \<Rightarrow> world" where
  "upLoop beh e [] w = w"
| "upLoop beh e (i # rest) w =
     (case map_of (interactables (manager w)) (object i) of
        None \<Rightarrow> upLoop beh e rest w
      | Some r \<Rightarrow>
          (case fire beh r (new_InteractEvent Pointerup (object i) i e) w of
             (b, ev, w') \<Rightarrow> if stopped ev then w' else upLoop beh e rest w'))"

definition onPointerUp :: "behaviour \<Rightarrow> scene \<Rightarrow> PointerEvent \<Rightarrow> world \<Rightarrow> world" where
  "onPointerUp beh sc e w =
     (case updatePointer e w of
        (d, w0) \<Rightarrow>
          (let w1 = w0\<lparr>manager := (manager w0)\<lparr>dragObject := None\<rparr>\<rparr>;
               w2 = upLoop beh e (performRaycast sc w1) w1
           in w2\<lparr>manager := (manager w2)\<lparr>activeObject := None\<rparr>\<rparr>))"

text \<open>The \<open>pointermove\<close> loop of \<open>onPointerMove\<close>: every event carries the displacement.\<close>

fun moveLoop ::
  "behaviour \<Rightarrow> PointerEvent \<Rightarrow> int \<times> int \<Rightarrow> Intersection list \<Rightarrow> world \<Rightarrow> world" where
  "moveLoop beh e d [] w = w"
| "moveLoop beh e d (i # rest) w =
     (case map_of (interactables (manager w)) (object i) of
        None \<Rightarrow> moveLoop beh e d rest w
      | Some r \<Rightarrow>
          (case fire beh r ((new_InteractEvent Pointermove (object i) i e)\<lparr>delta := d\<rparr>) w of
             (b, ev, w') \<Rightarrow> if stopped ev then w' else moveLoop beh e d rest w'))"

text \<open>
  \<open>processRaycast\<close>, first loop: the hit objects that are not hovered yet.  The loop
  ends when a dispatch returns true and has left the event stopped.
\<close>

fun enterLoop :: "behaviour \<Rightarrow> PointerEvent \<Rightarrow> Intersection list \<Rightarrow> world \<Rightarrow> world" where
  "enterLoop beh e [] w = w"
| "enterLoop beh e (i # rest) w =
     (case map_of (interactables (manager w)) (object i) of
        None \<Rightarrow> enterLoop beh e rest w
      | Some r \<Rightarrow>
          (if object i \<notin> set (hoveredObjects (manager w)) then
             (let w1 = w\<lparr>manager := (manager w)
                          \<lparr>hoveredObjects := hoveredObjects (manager w) @ [object i]\<rparr>\<rparr>
              in case fire beh r (new_InteractEvent Pointerenter (object i) i e) w1 of
                   (b, ev, w') \<Rightarrow>
                     if b then (if stopped ev then w' else enterLoop beh e rest w')
                     else enterLoop beh e rest w')
           else enterLoop beh e rest w))"

text \<open>
  \<open>processRaycast\<close>, second loop, over the entries of \<open>hoveredObjects\<close>.  A \<open>Map\<close>
  iterator is live: an entry deleted before its turn is not visited.  No entry can be
  added while this loop runs, so the loop goes through the entries present at its
  start and skips those that are gone.
\<close>

fun leaveLoop ::
  "behaviour \<Rightarrow> scene \<Rightarrow> PointerEvent \<Rightarrow> obj list \<Rightarrow> obj list \<Rightarrow> world \<Rightarrow> world" where
  "leaveLoop beh sc e intersectedObjects [] w = w"
| "leaveLoop beh sc e intersectedObjects (ob # rest) w =
     (if ob \<in> set (hoveredObjects (manager w)) \<and> ob \<notin> set intersectedObjects then
        (let w1 = w\<lparr>manager := (manager w)
                     \<lparr>hoveredObjects := filter (\<lambda>x. x \<noteq> ob) (hoveredObjects (manager w))\<rparr>\<rparr>
         in case map_of (interactables (manager w1)) ob of
              None \<Rightarrow> leaveLoop beh sc e intersectedObjects rest w1
            | Some r \<Rightarrow>
                (case fire beh r
                        (new_InteractEvent Pointerleave ob (getIntersection sc ob) e) w1 of
                   (b, ev, w') \<Rightarrow> leaveLoop beh sc e intersectedObjects rest w'))
      else leaveLoop beh sc e intersectedObjects rest w)"

definition processRaycast :: "behaviour \<Rightarrow> scene \<Rightarrow> PointerEvent \<Rightarrow> world \<Rightarrow> world" where
  "processRaycast beh sc e w =
     (let intersections = performRaycast sc w;
          intersectedObjects = map object intersections;
          w1 = enterLoop beh e intersections w
      in leaveLoop beh sc e intersectedObjects (hoveredObjects (manager w1)) w1)"

text \<open>The drag dispatch at the start of \<open>onPointerMove\<close>.\<close>

definition dragStep ::
  "behaviour \<Rightarrow> scene \<Rightarrow> PointerEvent \<Rightarrow> int \<times> int \<Rightarrow> world \<Rightarrow> world" where
  "dragStep beh sc e d w =
     (case dragObject (manager w) of
        None \<Rightarrow> w
      | Some ob \<Rightarrow>
          (case map_of (interactables (manager w)) ob of
             None \<Rightarrow> w
           | Some r \<Rightarrow>
               snd (snd (fire beh r
                 ((new_InteractEvent Drag ob (getIntersection sc ob) e)\<lparr>delta := d\<rparr>) w))))"

definition onPointerMove :: "behaviour \<Rightarrow> scene \<Rightarrow> PointerEvent \<Rightarrow> world \<Rightarrow> world" where
  "onPointerMove beh sc e w =
     (case updatePointer e w of
        (d, w0) \<Rightarrow>
          (let w1 = dragStep beh sc e d w0;
               w2 = moveLoop beh e d (performRaycast sc w1) w1
           in processRaycast beh sc e w2))"

section \<open>Observing a run\<close>

text \<open>The dispatches and the handler calls recorded in a stretch of the trace.\<close>

fun dispatched_of :: "entry \<Rightarrow> (wref \<times> InteractEvent) list" where
  "dispatched_of (Dispatched r ev) = [(r, ev)]"
| "dispatched_of (Invoked h ev) = []"

fun invoked_of :: "entry \<Rightarrow> (hid \<times> InteractEvent) list" where
  "invoked_of (Dispatched r ev) = []"
| "invoked_of (Invoked h ev) = [(h, ev)]"

definition dispatches :: "entry list \<Rightarrow> (wref \<times> InteractEvent) list" where
  "dispatches es = concat (map dispatched_of es)"

definition invocations :: "entry list \<Rightarrow> (hid \<times> InteractEvent) list" where
  "invocations es = concat (map invoked_of es)"

text \<open>What the run from state \<open>w\<close> to state \<open>w'\<close> added to the trace.\<close>

definition since :: "world \<Rightarrow> world \<Rightarrow> entry list" where
  "since w w' = drop (length (trace w)) (trace w')"

text \<open>
  \<open>same_event ev ev'\<close>: \<open>ev'\<close> is the event object \<open>ev\<close> after some handlers have run.
  A handler can change \<open>delta\<close> and set \<open>stopped\<close>, nothing else.
\<close>

definition same_event :: "InteractEvent \<Rightarrow> InteractEvent \<Rightarrow> bool" where
  "same_event ev ev' \<longleftrightarrow>
     etype ev' = etype ev \<and> target ev' = target ev \<and> intersection ev' = intersection ev
     \<and> originalEvent ev' = originalEvent ev \<and> (stopped ev \<longrightarrow> stopped ev')"

text \<open>The entries a dispatch of \<open>ev\<close> adds: calls of handlers with that event object.\<close>

definition calls_for :: "InteractEvent \<Rightarrow> entry list \<Rightarrow> bool" where
  "calls_for ev es \<longleftrightarrow>
     dispatches es = [] \<and> (\<forall>(h, e') \<in> set (invocations es). same_event ev e')"

text \<open>
  \<open>handlers_only beh allowed\<close>: no handler ever makes a call outside \<open>allowed\<close>.
  \<open>kept allowed P\<close>: the property \<open>P\<close> of the state does not depend on the trace and
  survives every call in \<open>allowed\<close>.
\<close>

definition handlers_only :: "behaviour \<Rightarrow> (action \<Rightarrow> bool) \<Rightarrow> bool" where
  "handlers_only beh allowed \<longleftrightarrow> (\<forall>h ev w. \<forall>act \<in> set (beh h ev w). allowed act)"

definition kept :: "(action \<Rightarrow> bool) \<Rightarrow> (world \<Rightarrow> bool) \<Rightarrow> bool" where
  "kept allowed P \<longleftrightarrow>
     (\<forall>act ev w. allowed act \<longrightarrow> P w \<longrightarrow> P (snd (exec act (ev, w))))
     \<and> (\<forall>w t. P (w\<lparr>trace := t\<rparr>) = P w)"

text \<open>
  \<open>off(type, handler)\<close> with a handler is the one call that takes an element out of a
  handler array (\<open>splice\<close>).
\<close>

fun is_splice :: "action \<Rightarrow> bool" where
  "is_splice (Off r ty (Some h)) = True"
| "is_splice act = False"

definition no_splice :: "behaviour \<Rightarrow> hid list \<Rightarrow> bool" where
  "no_splice beh hs \<longleftrightarrow> (\<forall>h \<in> set hs. \<forall>ev w. \<forall>act \<in> set (beh h ev w). \<not> is_splice act)"

definition has_prefix :: "aref \<Rightarrow> hid list \<Rightarrow> world \<Rightarrow> bool" where
  "has_prefix a hs w \<longleftrightarrow> a < length (arrays w) \<and> prefix hs (arrays w ! a)"

text \<open>Calling the handlers \<open>hs\<close> one after the other, each with the event as the last left it.\<close>

definition call_all ::
  "behaviour \<Rightarrow> hid list \<Rightarrow> InteractEvent \<times> world \<Rightarrow> InteractEvent \<times> world" where
  "call_all beh hs s = fold (\<lambda>h (ev, w). call beh h ev w) hs s"

section \<open>Invariants of the coordinator\<close>

text \<open>Every registered wrapper is in the store.\<close>

definition refs_ok :: "world \<Rightarrow> bool" where
  "refs_ok w \<longleftrightarrow> (\<forall>p \<in> set (interactables (manager w)). snd p < length (wrappers w))"

definition registered :: "world \<Rightarrow> obj \<Rightarrow> bool" where
  "registered w ob \<longleftrightarrow> map_of (interactables (manager w)) ob \<noteq> None"

text \<open>The drag target and the active target, when set, are registered objects.\<close>

definition targets_ok :: "world \<Rightarrow> bool" where
  "targets_ok w \<longleftrightarrow>
     (case dragObject (manager w) of None \<Rightarrow> True | Some ob \<Rightarrow> registered w ob)
     \<and> (case activeObject (manager w) of None \<Rightarrow> True | Some ob \<Rightarrow> registered w ob)"

section \<open>The common shape of the four hit loops\<close>

text \<open>
  The loops of \<open>onClick\<close>, \<open>onPointerDown\<close>, \<open>onPointerUp\<close> and \<open>onPointerMove\<close>
  differ in the event they build for a hit (\<open>mk\<close>) and in what they do to the
  coordinator after a dispatch (\<open>post\<close>).
\<close>

fun hitLoop ::
  "behaviour \<Rightarrow> (Intersection \<Rightarrow> InteractEvent) \<Rightarrow> (obj \<Rightarrow> world \<Rightarrow> world)
   \<Rightarrow> Intersection list \<Rightarrow> world \<Rightarrow> world" where
  "hitLoop beh mk post [] w = w"
| "hitLoop beh mk post (i # rest) w =
     (case map_of (interactables (manager w)) (object i) of
        None \<Rightarrow> hitLoop beh mk post rest w
      | Some r \<Rightarrow>
          (case fire beh r (mk i) w of
             (b, ev, w') \<Rightarrow>
               (let w'' = post (object i) w'
                in if stopped ev then w'' else hitLoop beh mk post rest w'')))"

definition capture :: "obj \<Rightarrow> world \<Rightarrow> world" where
  "capture ob w =
     w\<lparr>manager := (manager w)\<lparr>dragObject := Some ob, activeObject := Some ob\<rparr>\<rparr>"

definition mk_event ::
  "InteractEventType \<Rightarrow> PointerEvent \<Rightarrow> int \<times> int \<Rightarrow> Intersection \<Rightarrow> InteractEvent" where
  "mk_event ty e d i = (new_InteractEvent ty (object i) i e)\<lparr>delta := d\<rparr>"


text \<open>
  The dispatches of events of type \<open>ty\<close> with target \<open>ob\<close> in a stretch of the trace
  (each with the wrapper it went to), and all the dispatches of events of type \<open>ty\<close>.
\<close>

definition events_for ::
  "InteractEventType \<Rightarrow> obj \<Rightarrow> entry list \<Rightarrow> (wref \<times> InteractEvent) list" where
  "events_for ty ob es =
     filter (\<lambda>p. etype (snd p) = ty \<and> target (snd p) = ob) (dispatches es)"

definition events_of :: "InteractEventType \<Rightarrow> entry list \<Rightarrow> (wref \<times> InteractEvent) list" where
  "events_of ty es = filter (\<lambda>p. etype (snd p) = ty) (dispatches es)"

text \<open>Every call recorded in \<open>es\<close> was made with the event built for one of the hits.\<close>

definition calls_within ::
  "(Intersection \<Rightarrow> InteractEvent) \<Rightarrow> Intersection list \<Rightarrow> entry list \<Rightarrow> bool" where
  "calls_within mk hits es \<longleftrightarrow>
     (\<forall>(h, e') \<in> set (invocations es). \<exists>i \<in> set hits. same_event (mk i) e')"

text \<open>The two writes of \<open>processRaycast\<close> to \<open>hoveredObjects\<close>.\<close>

definition hover :: "obj \<Rightarrow> world \<Rightarrow> world" where
  "hover ob w =
     w\<lparr>manager := (manager w)\<lparr>hoveredObjects := hoveredObjects (manager w) @ [ob]\<rparr>\<rparr>"

definition unhover :: "obj \<Rightarrow> world \<Rightarrow> world" where
  "unhover ob w =
     w\<lparr>manager := (manager w)
        \<lparr>hoveredObjects := filter (\<lambda>x. x \<noteq> ob) (hoveredObjects (manager w))\<rparr>\<rparr>"

definition hovered :: "world \<Rightarrow> obj \<Rightarrow> bool" where
  "hovered w ob \<longleftrightarrow> ob \<in> set (hoveredObjects (manager w))"

text \<open>The calls a handler must not make for an object to stay registered, or for the
  propagation to go on.\<close>

definition never_removes :: "behaviour \<Rightarrow> obj \<Rightarrow> bool" where
  "never_removes beh ob \<longleftrightarrow> handlers_only beh (\<lambda>act. act \<noteq> Remove ob)"

definition never_stops :: "behaviour \<Rightarrow> bool" where
  "never_stops beh \<longleftrightarrow> handlers_only beh (\<lambda>act. act \<noteq> StopPropagation)"

fun is_remove :: "action \<Rightarrow> bool" where
  "is_remove (Remove ob) = True"
| "is_remove act = False"

text \<open>Every dispatch recorded in \<open>es\<close> is of an event whose type is in \<open>tys\<close>.\<close>

definition typed :: "InteractEventType set \<Rightarrow> entry list \<Rightarrow> bool" where
  "typed tys es \<longleftrightarrow> (\<forall>p \<in> set (dispatches es). etype (snd p) \<in> tys)"

text \<open>The state in which \<open>onPointerMove\<close> calls \<open>processRaycast\<close>.\<close>

definition before_hover :: "behaviour \<Rightarrow> scene \<Rightarrow> PointerEvent \<Rightarrow> world \<Rightarrow> world" where
  "before_hover beh sc e w =
     (let d = fst (updatePointer e w);
          w1 = dragStep beh sc e d (snd (updatePointer e w))
      in moveLoop beh e d (performRaycast sc w1) w1)"


text \<open>
  Whether the first loop of \<open>processRaycast\<close>, run over these hits from this state,
  is left through its \<open>break\<close>: the walk of \<open>enterLoop\<close>, returning which way the
  loop ended instead of the state.
\<close>

fun enter_broke :: "behaviour \<Rightarrow> PointerEvent \<Rightarrow> Intersection list \<Rightarrow> world \<Rightarrow> bool" where
  "enter_broke beh e [] w = False"
| "enter_broke beh e (i # rest) w =
     (case map_of (interactables (manager w)) (object i) of
        None \<Rightarrow> enter_broke beh e rest w
      | Some r \<Rightarrow>
          (if object i \<notin> set (hoveredObjects (manager w)) then
             (let w1 = w\<lparr>manager := (manager w)
                          \<lparr>hoveredObjects := hoveredObjects (manager w) @ [object i]\<rparr>\<rparr>
              in case fire beh r (new_InteractEvent Pointerenter (object i) i e) w1 of
                   (b, ev, w') \<Rightarrow>
                     if b then (if stopped ev then True else enter_broke beh e rest w')
                     else enter_broke beh e rest w')
           else enter_broke beh e rest w))"
section \<open>Concrete states\<close>

text \<open>
  One wrapper, for object 7, whose \<open>click\<close> handlers are \<open>hs\<close>; a \<open>click\<close> event on
  that object.
\<close>

definition one_registry :: "hid list \<Rightarrow> world" where
  "one_registry hs =
     \<lparr>manager = \<lparr>interactables = [(7, 0)], hoveredObjects = [], activeObject = None,
                 dragObject = None, lastMousePosition = (0, 0)\<rparr>,
      wrappers = [\<lparr>wobject = 7, eventHandlers = [Click \<mapsto> 0]\<rparr>],
      arrays = [hs], trace = []\<rparr>"

definition click7 :: InteractEvent where
  "click7 = new_InteractEvent Click 7 \<lparr>distance = 1, object = 7\<rparr> \<lparr>clientX = 0, clientY = 0\<rparr>"

text \<open>Handler 10 unregisters itself when it is called; the other handlers do nothing.\<close>

definition once :: behaviour where
  "once h ev w = (if h = 10 then [Off 0 Click (Some 10)] else [])"

text \<open>
  Handler 10 drops all \<open>click\<close> handlers with \<open>off('click')\<close> and registers handler 12,
  handler 11 stops the propagation.
\<close>

definition dropping :: behaviour where
  "dropping h ev w =
     (if h = 10 then [Off 0 Click None, On 0 Click 12]
      else if h = 11 then [StopPropagation] else [])"

definition quiet :: behaviour where
  "quiet h ev w = []"

text \<open>
  Two registered objects: object 7 (wrapper 0) with the handlers 10 to 14 and object 8
  (wrapper 1) with the handlers 20 to 24, one each for \<open>click\<close>, \<open>pointerdown\<close>,
  \<open>pointerenter\<close>, \<open>pointerleave\<close> and \<open>drag\<close>.
\<close>

definition two_objects :: world where
  "two_objects =
     \<lparr>manager = \<lparr>interactables = [(7, 0), (8, 1)], hoveredObjects = [], activeObject = None,
                 dragObject = None, lastMousePosition = (0, 0)\<rparr>,
      wrappers =
        [\<lparr>wobject = 7, eventHandlers = [Click \<mapsto> 0, Pointerdown \<mapsto> 1, Pointerenter \<mapsto> 2,
                                         Pointerleave \<mapsto> 3, Drag \<mapsto> 4]\<rparr>,
         \<lparr>wobject = 8, eventHandlers = [Click \<mapsto> 5, Pointerdown \<mapsto> 6, Pointerenter \<mapsto> 7,
                                         Pointerleave \<mapsto> 8, Drag \<mapsto> 9]\<rparr>],
      arrays = [[10], [11], [12], [13], [14], [20], [21], [22], [23], [24]],
      trace = []\<rparr>"

text \<open>A ray that hits the objects \<open>obs\<close>, in that order.\<close>

definition hit :: "obj \<Rightarrow> Intersection" where
  "hit ob = \<lparr>distance = int ob, object = ob\<rparr>"

definition ray :: "obj list \<Rightarrow> scene" where
  "ray obs =
     \<lparr>intersectObjects = (\<lambda>objects. filter (\<lambda>i. object i \<in> set objects) (map hit obs)),
      intersectObject = (\<lambda>ob. filter (\<lambda>i. object i = ob) (map hit obs))\<rparr>"

definition pointer_at :: "int \<Rightarrow> int \<Rightarrow> PointerEvent" where
  "pointer_at x y = \<lparr>clientX = x, clientY = y\<rparr>"

text \<open>The handlers of object 7 stop the propagation; the others do nothing.\<close>

definition near_stops :: behaviour where
  "near_stops h ev w = (if h \<in> {10, 11, 12, 13, 14} then [StopPropagation] else [])"

text \<open>The \<open>pointerdown\<close> handler of object 7 removes the object from the coordinator.\<close>

definition deleting :: behaviour where
  "deleting h ev w = (if h = 11 then [Remove 7] else [])"

text \<open>The \<open>pointerenter\<close> handler of object 7 removes the object from the coordinator.\<close>

definition vanishing :: behaviour where
  "vanishing h ev w = (if h = 12 then [Remove 7] else [])"

text \<open>
  The \<open>pointerenter\<close> handler of object 7 stops the propagation and unregisters
  itself.
\<close>

definition stop_once :: behaviour where
  "stop_once h ev w =
     (if h = 12 then [StopPropagation, Off 0 Pointerenter (Some 12)] else [])"


text \<open>
  The two objects of \<open>two_objects\<close> and a third one, object 6 (wrapper 2, no
  handlers), registered before them and already hovered.
\<close>

definition three_objects :: world where
  "three_objects =
     two_objects
       \<lparr>manager := (manager two_objects)
          \<lparr>interactables := [(6, 2), (7, 0), (8, 1)], hoveredObjects := [6]\<rparr>,
        wrappers := wrappers two_objects @ [\<lparr>wobject = 6, eventHandlers = Map.empty\<rparr>]\<rparr>"
section \<open>Basic facts\<close>

lemma dispatches_simps [simp]:
  "dispatches [] = []"
  "dispatches (Dispatched r ev # es) = (r, ev) # dispatches es"
  "dispatches (Invoked h ev # es) = dispatches es"
  "dispatches (xs @ ys) = dispatches xs @ dispatches ys"
  by (simp_all add: dispatches_def)

lemma invocations_simps [simp]:
  "invocations [] = []"
  "invocations (Dispatched r ev # es) = invocations es"
  "invocations (Invoked h ev # es) = (h, ev) # invocations es"
  "invocations (xs @ ys) = invocations xs @ invocations ys"
  by (simp_all add: invocations_def)

lemma since_append [simp]: "trace w' = trace w @ es \<Longrightarrow> since w w' = es"
  by (simp add: since_def)

lemma since_refl [simp]: "since w w = []"
  by (simp add: since_def)

subsection \<open>What one call of the interface leaves alone\<close>

lemma trace_set_handlers [simp]: "trace (set_handlers r ty v w) = trace w"
  by (simp add: set_handlers_def)

lemma trace_on [simp]: "trace (on r ty h w) = trace w"
  by (simp add: on_def Let_def split: option.splits)

lemma trace_off [simp]: "trace (off r ty ho w) = trace w"
  by (simp add: off_def Let_def split: option.splits)

lemma trace_removeAll [simp]: "trace (removeAll_handlers r w) = trace w"
  by (simp add: removeAll_handlers_def)

lemma trace_add [simp]: "trace (snd (add ob w)) = trace w"
  by (simp add: add_def Let_def split: option.splits)

lemma trace_remove [simp]: "trace (remove_object ob w) = trace w"
  by (simp add: remove_object_def)

lemma manager_set_handlers [simp]: "manager (set_handlers r ty v w) = manager w"
  by (simp add: set_handlers_def)

lemma manager_on [simp]: "manager (on r ty h w) = manager w"
  by (simp add: on_def Let_def split: option.splits)

lemma manager_off [simp]: "manager (off r ty ho w) = manager w"
  by (simp add: off_def Let_def split: option.splits)

lemma manager_removeAll [simp]: "manager (removeAll_handlers r w) = manager w"
  by (simp add: removeAll_handlers_def)

lemma arrays_set_handlers [simp]: "arrays (set_handlers r ty v w) = arrays w"
  by (simp add: set_handlers_def)

lemma arrays_removeAll [simp]: "arrays (removeAll_handlers r w) = arrays w"
  by (simp add: removeAll_handlers_def)

lemma arrays_add [simp]: "arrays (snd (add ob w)) = arrays w"
  by (simp add: add_def Let_def split: option.splits)

lemma arrays_remove [simp]: "arrays (remove_object ob w) = arrays w"
  by (simp add: remove_object_def)

lemma wrappers_remove [simp]: "wrappers (remove_object ob w) = wrappers w"
  by (simp add: remove_object_def)

lemma exec_trace [simp]: "trace (snd (exec act s)) = trace (snd s)"
  by (cases act; cases s) simp_all

lemma fold_exec_trace [simp]: "trace (snd (fold exec acts s)) = trace (snd s)"
  by (induction acts arbitrary: s) simp_all

lemma call_trace [simp]: "trace (snd (call beh h ev w)) = trace w @ [Invoked h ev]"
  by (simp add: call_def)

lemma same_event_refl [simp]: "same_event ev ev"
  by (simp add: same_event_def)

lemma same_event_trans: "same_event a b \<Longrightarrow> same_event b c \<Longrightarrow> same_event a c"
  by (simp add: same_event_def)

lemma exec_same_event: "same_event ev (fst (exec act (ev, w)))"
  by (cases act) (simp_all add: same_event_def stopPropagation_def)

lemma fold_exec_same_event: "same_event (fst s) (fst (fold exec acts s))"
proof (induction acts arbitrary: s)
  case Nil
  show ?case by simp
next
  case (Cons act acts)
  have "same_event (fst s) (fst (exec act s))"
    using exec_same_event [of "fst s" act "snd s"] by simp
  with Cons [of "exec act s"] show ?case
    by (auto intro: same_event_trans)
qed

lemma call_same_event: "same_event ev (fst (call beh h ev w))"
  using fold_exec_same_event [of "(ev, w\<lparr>trace := trace w @ [Invoked h ev]\<rparr>)" "beh h ev w"]
  by (simp add: call_def)

lemma exec_stop: "stopped (fst (exec StopPropagation s))"
  by (cases s) (simp add: stopPropagation_def)

lemma fold_exec_stops:
  "StopPropagation \<in> set acts \<Longrightarrow> stopped (fst (fold exec acts s))"
proof (induction acts arbitrary: s)
  case Nil
  then show ?case by simp
next
  case (Cons act acts)
  show ?case
  proof (cases "act = StopPropagation")
    case True
    have "stopped (fst (exec act s))" using True exec_stop by simp
    moreover have "same_event (fst (exec act s)) (fst (fold exec acts (exec act s)))"
      by (rule fold_exec_same_event)
    ultimately show ?thesis by (simp add: same_event_def)
  next
    case False
    with Cons show ?thesis by simp
  qed
qed

lemma call_stops:
  "StopPropagation \<in> set (beh h ev w) \<Longrightarrow> stopped (fst (call beh h ev w))"
  by (simp add: call_def fold_exec_stops)

subsection \<open>The trace of a dispatch\<close>

lemma calls_for_Nil [simp]: "calls_for ev []"
  by (simp add: calls_for_def)

lemma calls_for_step:
  "same_event ev ev' \<Longrightarrow> calls_for ev' es \<Longrightarrow> calls_for ev (Invoked h ev # es)"
  by (auto simp: calls_for_def intro: same_event_trans)

lemma forEach_trace:
  "\<exists>es. trace (snd (forEach beh a k len ev w)) = trace w @ es \<and> calls_for ev es
        \<and> same_event ev (fst (forEach beh a k len ev w))"
proof (induction beh a k len ev w rule: forEach.induct)
  case (1 beh a k len ev w)
  show ?case
  proof (cases "k < len")
    case False
    then show ?thesis by (simp add: forEach.simps)
  next
    case klen: True
    show ?thesis
    proof (cases "k < length (arrays w ! a)")
      case False
      with klen "1.IH"(2) show ?thesis by (simp add: forEach.simps [of beh a k])
    next
      case True
      obtain ev' w' where c: "call beh (arrays w ! a ! k) ev w = (ev', w')"
        by (cases "call beh (arrays w ! a ! k) ev w")
      from "1.IH"(1) [OF klen True c [symmetric]]
      obtain es where es: "trace (snd (forEach beh a (Suc k) len ev' w')) = trace w' @ es"
        "calls_for ev' es" "same_event ev' (fst (forEach beh a (Suc k) len ev' w'))"
        by blast
      have tr: "trace w' = trace w @ [Invoked (arrays w ! a ! k) ev]"
        using call_trace [of beh "arrays w ! a ! k" ev w] c by simp
      have se: "same_event ev ev'"
        using call_same_event [of ev beh "arrays w ! a ! k" w] c by simp
      have eq: "forEach beh a k len ev w = forEach beh a (Suc k) len ev' w'"
        using klen True c by (simp add: forEach.simps [of beh a k])
      show ?thesis
        unfolding eq using es tr se
        by (auto intro: calls_for_step same_event_trans)
    qed
  qed
qed

lemma dispatchEvent_trace:
  "\<exists>es. trace (snd (snd (dispatchEvent beh r ev w))) = trace w @ es \<and> calls_for ev es
        \<and> same_event ev (fst (snd (dispatchEvent beh r ev w)))"
proof (cases "eventHandlers (wrappers w ! r) (etype ev)")
  case None
  then show ?thesis by (simp add: dispatchEvent_def)
next
  case (Some a)
  from forEach_trace [of beh a 0 "length (arrays w ! a)" ev w] Some
  show ?thesis by (auto simp: dispatchEvent_def split: prod.splits)
qed

lemma fire_trace:
  "\<exists>es. trace (snd (snd (fire beh r ev w))) = trace w @ Dispatched r ev # es \<and> calls_for ev es
        \<and> same_event ev (fst (snd (fire beh r ev w)))"
  using dispatchEvent_trace [of beh r ev "w\<lparr>trace := trace w @ [Dispatched r ev]\<rparr>"]
  by (auto simp: fire_def)

subsection \<open>Properties of the state that every handler keeps\<close>

lemma fold_exec_kept:
  assumes "kept allowed P" and "\<forall>act \<in> set acts. allowed act" and "P (snd s)"
  shows "P (snd (fold exec acts s))"
  using assms(2,3)
proof (induction acts arbitrary: s)
  case Nil
  then show ?case by simp
next
  case (Cons act acts)
  obtain ev w where s: "s = (ev, w)" by (cases s)
  have "P (snd (exec act s))"
    using assms(1) Cons.prems unfolding kept_def s by simp
  with Cons show ?case by simp
qed

lemma call_kept_local:
  assumes "kept allowed P" and "\<forall>act \<in> set (beh h ev w). allowed act" and "P w"
  shows "P (snd (call beh h ev w))"
proof -
  have "P (w\<lparr>trace := trace w @ [Invoked h ev]\<rparr>)"
    using assms(1,3) unfolding kept_def by simp
  then show ?thesis
    unfolding call_def using fold_exec_kept [OF assms(1,2)] by simp
qed

lemma call_kept:
  assumes "kept allowed P" and "handlers_only beh allowed" and "P w"
  shows "P (snd (call beh h ev w))"
  using assms(2) call_kept_local [OF assms(1) _ assms(3)]
  unfolding handlers_only_def by blast

lemma forEach_kept:
  assumes "kept allowed P"
  shows "P w \<Longrightarrow> handlers_only beh allowed \<Longrightarrow> P (snd (forEach beh a k len ev w))"
proof (induction beh a k len ev w rule: forEach.induct)
  case (1 beh a k len ev w)
  show ?case
  proof (cases "k < len")
    case False
    with "1.prems" show ?thesis by (simp add: forEach.simps)
  next
    case klen: True
    show ?thesis
    proof (cases "k < length (arrays w ! a)")
      case False
      with klen "1.IH"(2) "1.prems" show ?thesis by (simp add: forEach.simps [of beh a k])
    next
      case True
      obtain ev' w' where c: "call beh (arrays w ! a ! k) ev w = (ev', w')"
        by (cases "call beh (arrays w ! a ! k) ev w")
      have "P w'"
        using call_kept [OF assms(1) "1.prems"(2,1), of "arrays w ! a ! k" ev] c by simp
      from "1.IH"(1) [OF klen True c [symmetric] this "1.prems"(2)]
      show ?thesis using klen True c by (simp add: forEach.simps [of beh a k])
    qed
  qed
qed

subsection \<open>Dispatch when no handler splices\<close>

lemma has_prefix_on:
  assumes "has_prefix a hs w" and "r < length (wrappers w)"
  shows "has_prefix a hs (on r ty h w)"
proof (cases "eventHandlers (wrappers w ! r) ty")
  case None
  with assms show ?thesis
    by (simp add: on_def has_prefix_def set_handlers_def Let_def nth_append)
next
  case (Some b)
  with assms show ?thesis
    by (cases "b = a") (auto simp: on_def has_prefix_def Let_def)
qed

lemma kept_has_prefix: "kept (\<lambda>act. \<not> is_splice act) (has_prefix a hs)"
  unfolding kept_def
proof (intro conjI allI impI)
  fix act ev w
  assume "\<not> is_splice act" and "has_prefix a hs w"
  then show "has_prefix a hs (snd (exec act (ev, w)))"
  proof (cases act)
    case (On r ty h)
    with \<open>has_prefix a hs w\<close> show ?thesis by (simp add: has_prefix_on)
  next
    case (Off r ty ho)
    with \<open>\<not> is_splice act\<close> have "ho = None" by (cases ho) simp_all
    with Off \<open>has_prefix a hs w\<close> show ?thesis by (simp add: off_def has_prefix_def)
  qed (simp_all add: has_prefix_def)
next
  fix w t
  show "has_prefix a hs (w\<lparr>trace := t\<rparr>) = has_prefix a hs w"
    by (simp add: has_prefix_def)
qed

lemma forEach_no_splice:
  assumes "no_splice beh hs"
  shows "has_prefix a hs w \<Longrightarrow> k \<le> length hs \<Longrightarrow> n = length hs - k \<Longrightarrow>
         forEach beh a k (length hs) ev w = call_all beh (drop k hs) (ev, w)
         \<and> has_prefix a hs (snd (forEach beh a k (length hs) ev w))"
proof (induction n arbitrary: k ev w)
  case 0
  then show ?case by (simp add: forEach.simps call_all_def)
next
  case (Suc n)
  then have klen: "k < length hs" by simp
  have pre: "prefix hs (arrays w ! a)" using Suc.prems(1) by (simp add: has_prefix_def)
  then have klen': "k < length (arrays w ! a)"
    using klen by (meson less_le_trans prefix_length_le)
  have elem: "arrays w ! a ! k = hs ! k"
    using pre klen by (auto simp: prefix_def nth_append)
  obtain ev' w' where c: "call beh (hs ! k) ev w = (ev', w')"
    by (cases "call beh (hs ! k) ev w")
  have "hs ! k \<in> set hs" using klen by simp
  with assms have "\<forall>act \<in> set (beh (hs ! k) ev w). \<not> is_splice act"
    unfolding no_splice_def by blast
  then have "has_prefix a hs (snd (call beh (hs ! k) ev w))"
    using Suc.prems(1) by (rule call_kept_local [OF kept_has_prefix])
  then have P': "has_prefix a hs w'" using c by simp
  have IH: "forEach beh a (Suc k) (length hs) ev' w' = call_all beh (drop (Suc k) hs) (ev', w')
         \<and> has_prefix a hs (snd (forEach beh a (Suc k) (length hs) ev' w'))"
  proof (rule Suc.IH [OF P'])
    show "Suc k \<le> length hs" using klen by simp
    show "n = length hs - Suc k" using Suc.prems(3) by simp
  qed
  have unfold: "forEach beh a k (length hs) ev w = forEach beh a (Suc k) (length hs) ev' w'"
    using klen klen' elem c by (simp add: forEach.simps [of beh a k])
  have "drop k hs = hs ! k # drop (Suc k) hs"
    using klen by (simp add: Cons_nth_drop_Suc)
  then have eq: "call_all beh (drop k hs) (ev, w) = call_all beh (drop (Suc k) hs) (ev', w')"
    using c by (simp add: call_all_def)
  show ?case unfolding unfold eq by (rule IH)
qed

lemma call_all_invocations:
  "\<exists>es. trace (snd (call_all beh hs s)) = trace (snd s) @ es
        \<and> map fst (invocations es) = hs \<and> dispatches es = []"
proof (induction hs arbitrary: s)
  case Nil
  show ?case by (simp add: call_all_def)
next
  case (Cons h hs)
  obtain ev w where s: "s = (ev, w)" by (cases s)
  from Cons [of "call beh h ev w"]
  obtain es where "trace (snd (call_all beh hs (call beh h ev w))) =
      trace (snd (call beh h ev w)) @ es" "map fst (invocations es) = hs" "dispatches es = []"
    by blast
  then show ?case
    by (auto simp: call_all_def s)
qed

lemma forEach_count:
  "length (invocations (since w (snd (forEach beh a k len ev w)))) \<le> len - k"
proof (induction beh a k len ev w rule: forEach.induct)
  case (1 beh a k len ev w)
  show ?case
  proof (cases "k < len")
    case False
    then show ?thesis by (simp add: forEach.simps)
  next
    case klen: True
    show ?thesis
    proof (cases "k < length (arrays w ! a)")
      case False
      with klen "1.IH"(2) show ?thesis by (simp add: forEach.simps [of beh a k])
    next
      case True
      obtain ev' w' where c: "call beh (arrays w ! a ! k) ev w = (ev', w')"
        by (cases "call beh (arrays w ! a ! k) ev w")
      have tr: "trace w' = trace w @ [Invoked (arrays w ! a ! k) ev]"
        using call_trace [of beh "arrays w ! a ! k" ev w] c by simp
      obtain es where es: "trace (snd (forEach beh a (Suc k) len ev' w')) = trace w' @ es"
        using forEach_trace [of beh a "Suc k" len ev' w'] by blast
      have "length (invocations es) \<le> len - Suc k"
        using "1.IH"(1) [OF klen True c [symmetric]] es by simp
      moreover have "forEach beh a k len ev w = forEach beh a (Suc k) len ev' w'"
        using klen True c by (simp add: forEach.simps [of beh a k])
      ultimately show ?thesis using es tr klen by simp
    qed
  qed
qed

lemma dispatchEvent_no_splice:
  assumes "eventHandlers (wrappers w ! r) (etype ev) = Some a" and "a < length (arrays w)"
    and "no_splice beh (arrays w ! a)"
  shows "dispatchEvent beh r ev w = (arrays w ! a \<noteq> [], call_all beh (arrays w ! a) (ev, w))"
proof -
  let ?hs = "arrays w ! a"
  have P: "has_prefix a ?hs w" using assms(2) by (simp add: has_prefix_def)
  have both: "forEach beh a 0 (length ?hs) ev w = call_all beh (drop 0 ?hs) (ev, w)
      \<and> has_prefix a ?hs (snd (forEach beh a 0 (length ?hs) ev w))"
    by (rule forEach_no_splice [OF assms(3) P]) simp_all
  from both have eq: "forEach beh a 0 (length ?hs) ev w = call_all beh ?hs (ev, w)"
    by simp
  from both have P': "has_prefix a ?hs (snd (forEach beh a 0 (length ?hs) ev w))"
    by (rule conjunct2)
  obtain ev' w' where r: "call_all beh ?hs (ev, w) = (ev', w')"
    by (cases "call_all beh ?hs (ev, w)")
  from P' eq r have "prefix ?hs (arrays w' ! a)" by (simp add: has_prefix_def)
  moreover have "?hs = [] \<Longrightarrow> w' = w" using r by (simp add: call_all_def)
  ultimately have "(0 < length (arrays w' ! a)) = (?hs \<noteq> [])"
    by (cases "?hs = []") auto
  then show ?thesis
    using assms(1) eq r by (simp add: dispatchEvent_def)
qed





subsection \<open>The map of registered objects\<close>

lemma map_of_removed: "map_of (filter (\<lambda>p. fst p \<noteq> ob) xs) ob = None"
  by (induction xs) auto

lemma map_of_others: "ob' \<noteq> ob \<Longrightarrow> map_of (filter (\<lambda>p. fst p \<noteq> ob) xs) ob' = map_of xs ob'"
  by (induction xs) auto

lemma map_of_snoc:
  "map_of (xs @ [(k, v)]) k' =
     (case map_of xs k' of Some x \<Rightarrow> Some x | None \<Rightarrow> if k' = k then Some v else None)"
  by (simp add: map_add_def split: option.splits)

lemma add_registered:
  "map_of (interactables (manager w)) ob = Some r \<Longrightarrow> add ob w = (r, w)"
  by (simp add: add_def)

lemma add_fresh:
  "map_of (interactables (manager w)) ob = None \<Longrightarrow>
   add ob w = (length (wrappers w),
     w\<lparr>wrappers := wrappers w @ [\<lparr>wobject = ob, eventHandlers = Map.empty\<rparr>],
       manager := (manager w)
         \<lparr>interactables := interactables (manager w) @ [(ob, length (wrappers w))]\<rparr>\<rparr>)"
  by (simp add: add_def Let_def)

subsection \<open>The four loops\<close>

declare hitLoop.simps(2) [simp del]

lemma mk_event_zero: "mk_event ty e (0, 0) i = new_InteractEvent ty (object i) i e"
  by (simp add: mk_event_def new_InteractEvent_def)

lemma clickLoop_hitLoop:
  "clickLoop beh e hits w = hitLoop beh (mk_event Click e (0, 0)) (\<lambda>ob w. w) hits w"
  by (induction hits arbitrary: w)
    (auto simp: hitLoop.simps(2) mk_event_zero split: option.splits prod.splits)

lemma upLoop_hitLoop:
  "upLoop beh e hits w = hitLoop beh (mk_event Pointerup e (0, 0)) (\<lambda>ob w. w) hits w"
  by (induction hits arbitrary: w)
    (auto simp: hitLoop.simps(2) mk_event_zero split: option.splits prod.splits)

lemma moveLoop_hitLoop:
  "moveLoop beh e d hits w = hitLoop beh (mk_event Pointermove e d) (\<lambda>ob w. w) hits w"
  by (induction hits arbitrary: w)
    (auto simp: mk_event_def hitLoop.simps(2) split: option.splits prod.splits)

lemma downLoop_hitLoop:
  "downLoop beh e hits w = hitLoop beh (mk_event Pointerdown e (0, 0)) capture hits w"
  by (induction hits arbitrary: w)
    (auto simp: capture_def Let_def hitLoop.simps(2) mk_event_zero
       split: option.splits prod.splits)

subsection \<open>What a dispatch keeps\<close>

lemma kept_trace: "kept allowed P \<Longrightarrow> P (w\<lparr>trace := t\<rparr>) = P w"
  by (simp add: kept_def)

lemma dispatchEvent_kept:
  assumes "kept allowed P" and "handlers_only beh allowed" and "P w"
  shows "P (snd (snd (dispatchEvent beh r ev w)))"
proof (cases "eventHandlers (wrappers w ! r) (etype ev)")
  case None
  with assms(3) show ?thesis by (simp add: dispatchEvent_def)
next
  case (Some a)
  from forEach_kept [OF assms(1,3,2), of a 0 "length (arrays w ! a)" ev] Some
  show ?thesis by (auto simp: dispatchEvent_def split: prod.splits)
qed

lemma fire_kept:
  assumes "kept allowed P" and "handlers_only beh allowed" and "P w"
  shows "P (snd (snd (fire beh r ev w)))"
  unfolding fire_def
  by (rule dispatchEvent_kept [OF assms(1,2)]) (simp add: kept_trace [OF assms(1)] assms(3))

lemma hitLoop_kept:
  assumes "kept allowed P" and "handlers_only beh allowed"
    and "\<And>ob w. P w \<Longrightarrow> P (post ob w)"
  shows "P w \<Longrightarrow> P (hitLoop beh mk post hits w)"
proof (induction hits arbitrary: w)
  case Nil
  then show ?case by simp
next
  case (Cons i rest)
  show ?case
  proof (cases "map_of (interactables (manager w)) (object i)")
    case None
    with Cons show ?thesis by (simp add: hitLoop.simps(2))
  next
    case (Some r)
    obtain b ev w' where f: "fire beh r (mk i) w = (b, ev, w')"
      by (cases "fire beh r (mk i) w")
    have "P w'" using fire_kept [OF assms(1,2) Cons.prems, of r "mk i"] f by simp
    then have "P (post (object i) w')" by (rule assms(3))
    with Cons.IH Some f show ?thesis by (simp add: Let_def hitLoop.simps(2))
  qed
qed

subsection \<open>The trace of a hit loop\<close>

lemma calls_for_same:
  "same_event ev ev' \<Longrightarrow> calls_for ev' es \<Longrightarrow> calls_for ev es"
  by (auto simp: calls_for_def intro: same_event_trans)

lemma calls_for_append:
  "calls_for ev es \<Longrightarrow> calls_for ev es' \<Longrightarrow> calls_for ev (es @ es')"
  by (auto simp: calls_for_def)

lemma calls_within_Dispatched [simp]:
  "calls_within mk hits (Dispatched r ev # es) = calls_within mk hits es"
  by (simp add: calls_within_def)

lemma calls_for_within: "calls_for ev es \<Longrightarrow> ev = mk i \<Longrightarrow> calls_within mk (i # rest) es"
  by (auto simp: calls_for_def calls_within_def)

lemma calls_within_Cons: "calls_within mk rest es \<Longrightarrow> calls_within mk (i # rest) es"
  by (fastforce simp: calls_within_def)

lemma calls_within_append:
  "calls_within mk hits es \<Longrightarrow> calls_within mk hits es' \<Longrightarrow> calls_within mk hits (es @ es')"
  by (auto simp: calls_within_def)

lemma hitLoop_registered:
  assumes "map_of (interactables (manager w)) (object i) = Some r"
  shows "hitLoop beh mk post (i # rest) w =
     (if stopped (fst (snd (fire beh r (mk i) w)))
      then post (object i) (snd (snd (fire beh r (mk i) w)))
      else hitLoop beh mk post rest (post (object i) (snd (snd (fire beh r (mk i) w)))))"
  using assms by (cases "fire beh r (mk i) w") (simp add: Let_def hitLoop.simps(2))

lemma hitLoop_single:
  assumes "map_of (interactables (manager w)) (object i) = Some r"
  shows "hitLoop beh mk post [i] w = post (object i) (snd (snd (fire beh r (mk i) w)))"
  by (simp add: hitLoop_registered [OF assms])

lemma hitLoop_stop:
  assumes "map_of (interactables (manager w)) (object i) = Some r"
    and "stopped (fst (snd (fire beh r (mk i) w)))"
  shows "hitLoop beh mk post (i # rest) w = hitLoop beh mk post [i] w"
  using assms(2) by (simp add: hitLoop_registered [OF assms(1)])

lemma hitLoop_continue:
  assumes "map_of (interactables (manager w)) (object i) = Some r"
    and "\<not> stopped (fst (snd (fire beh r (mk i) w)))"
  shows "hitLoop beh mk post (i # rest) w = hitLoop beh mk post rest (hitLoop beh mk post [i] w)"
  using assms(2) by (simp add: hitLoop_registered [OF assms(1)])

lemma hitLoop_skip:
  assumes "map_of (interactables (manager w)) (object i) = None"
  shows "hitLoop beh mk post (i # rest) w = hitLoop beh mk post rest w"
  using assms by (simp add: hitLoop.simps(2))

lemma hitLoop_single_trace:
  assumes "map_of (interactables (manager w)) (object i) = Some r"
    and "\<And>ob w. trace (post ob w) = trace w"
  shows "\<exists>es. trace (hitLoop beh mk post [i] w) = trace w @ Dispatched r (mk i) # es
              \<and> calls_for (mk i) es"
  using fire_trace [of beh r "mk i" w] assms(2)
  by (auto simp: hitLoop_single [OF assms(1)])

lemma hitLoop_trace:
  assumes "\<And>ob w. trace (post ob w) = trace w"
  shows "\<exists>es. trace (hitLoop beh mk post hits w) = trace w @ es
              \<and> subseq (map snd (dispatches es)) (map mk hits)
              \<and> calls_within mk hits es"
proof (induction hits arbitrary: w)
  case Nil
  show ?case by (simp add: calls_within_def)
next
  case (Cons i rest)
  show ?case
  proof (cases "map_of (interactables (manager w)) (object i)")
    case None
    from Cons [of w] obtain es where "trace (hitLoop beh mk post rest w) = trace w @ es"
      "subseq (map snd (dispatches es)) (map mk rest)" "calls_within mk rest es"
      by blast
    with None show ?thesis
      by (auto simp: hitLoop_skip intro: calls_within_Cons)
  next
    case (Some r)
    let ?w1 = "hitLoop beh mk post [i] w"
    have "\<exists>es. trace ?w1 = trace w @ Dispatched r (mk i) # es \<and> calls_for (mk i) es"
      by (rule hitLoop_single_trace [OF Some]) (rule assms)
    then obtain es1 where es1: "trace ?w1 = trace w @ Dispatched r (mk i) # es1" "calls_for (mk i) es1"
      by blast
    have d1: "dispatches es1 = []" using es1(2) by (simp add: calls_for_def)
    show ?thesis
    proof (cases "stopped (fst (snd (fire beh r (mk i) w)))")
      case True
      have "hitLoop beh mk post (i # rest) w = ?w1"
        using Some True by (rule hitLoop_stop)
      moreover have "calls_within mk (i # rest) es1"
        using es1(2) refl by (rule calls_for_within)
      ultimately show ?thesis
        using es1 d1 by (intro exI [of _ "Dispatched r (mk i) # es1"]) simp
    next
      case False
      have eq: "hitLoop beh mk post (i # rest) w = hitLoop beh mk post rest ?w1"
        using Some False by (rule hitLoop_continue)
      from Cons [of ?w1] obtain es2 where es2:
        "trace (hitLoop beh mk post rest ?w1) = trace ?w1 @ es2"
        "subseq (map snd (dispatches es2)) (map mk rest)" "calls_within mk rest es2"
        by blast
      have "calls_within mk (i # rest) es1"
        using es1(2) refl by (rule calls_for_within)
      moreover have "calls_within mk (i # rest) es2"
        using es2(3) by (rule calls_within_Cons)
      ultimately have "calls_within mk (i # rest) (es1 @ es2)"
        by (rule calls_within_append)
      with es1 es2 d1 eq show ?thesis
        by (intro exI [of _ "Dispatched r (mk i) # es1 @ es2"]) simp
    qed
  qed
qed

subsection \<open>A first handler that stops the propagation\<close>

lemma dispatch_head_stops:
  assumes "eventHandlers (wrappers w ! r) (etype ev) = Some a"
    and "arrays w ! a = h # hs"
    and "\<forall>ev w. StopPropagation \<in> set (beh h ev w)"
  shows "stopped (fst (snd (dispatchEvent beh r ev w)))"
    and "\<exists>es. trace (snd (snd (dispatchEvent beh r ev w))) = trace w @ Invoked h ev # es
              \<and> calls_for ev es"
proof -
  obtain ev' w' where c: "call beh h ev w = (ev', w')" by (cases "call beh h ev w")
  have st: "stopped ev'" using call_stops [of beh h ev w] assms(3) c by simp
  have se: "same_event ev ev'" using call_same_event [of ev beh h w] c by simp
  have tr: "trace w' = trace w @ [Invoked h ev]" using call_trace [of beh h ev w] c by simp
  let ?f = "forEach beh a (Suc 0) (length (h # hs)) ev' w'"
  have un: "forEach beh a 0 (length (arrays w ! a)) ev w = ?f"
    using assms(2) c by (simp add: forEach.simps [of beh a 0])
  obtain es where es: "trace (snd ?f) = trace w' @ es" "calls_for ev' es" "same_event ev' (fst ?f)"
    using forEach_trace [of beh a "Suc 0" "length (h # hs)" ev' w'] by blast
  have res: "snd (dispatchEvent beh r ev w) = ?f"
    using assms(1) un by (simp add: dispatchEvent_def split: prod.splits)
  show "stopped (fst (snd (dispatchEvent beh r ev w)))"
    unfolding res using es(3) st by (simp add: same_event_def)
  show "\<exists>es. trace (snd (snd (dispatchEvent beh r ev w))) = trace w @ Invoked h ev # es
              \<and> calls_for ev es"
    unfolding res using es tr se by (auto intro: calls_for_same)
qed

lemma fire_head_stops:
  assumes "eventHandlers (wrappers w ! r) (etype ev) = Some a"
    and "arrays w ! a = h # hs"
    and "\<forall>ev w. StopPropagation \<in> set (beh h ev w)"
  shows "stopped (fst (snd (fire beh r ev w)))"
    and "\<exists>es. trace (snd (snd (fire beh r ev w))) = trace w @ Dispatched r ev # Invoked h ev # es
              \<and> calls_for ev es"
  using dispatch_head_stops [of "w\<lparr>trace := trace w @ [Dispatched r ev]\<rparr>" r ev a h hs beh] assms
  by (simp_all add: fire_def)

subsection \<open>The loops of processRaycast\<close>

lemma enterLoop_skip:
  assumes "map_of (interactables (manager w)) (object i) = None \<or> hovered w (object i)"
  shows "enterLoop beh e (i # rest) w = enterLoop beh e rest w"
  using assms by (auto simp: hovered_def split: option.splits)

lemma enterLoop_new:
  assumes "map_of (interactables (manager w)) (object i) = Some r" and "\<not> hovered w (object i)"
  shows "enterLoop beh e (i # rest) w =
     (if fst (fire beh r (mk_event Pointerenter e (0, 0) i) (hover (object i) w))
         \<and> stopped (fst (snd (fire beh r (mk_event Pointerenter e (0, 0) i) (hover (object i) w))))
      then snd (snd (fire beh r (mk_event Pointerenter e (0, 0) i) (hover (object i) w)))
      else enterLoop beh e rest
             (snd (snd (fire beh r (mk_event Pointerenter e (0, 0) i) (hover (object i) w)))))"
  using assms
  by (cases "fire beh r (new_InteractEvent Pointerenter (object i) i e) (hover (object i) w)")
    (auto simp: hovered_def hover_def Let_def mk_event_zero)

lemma leaveLoop_skip:
  assumes "\<not> hovered w ob \<or> ob \<in> set H"
  shows "leaveLoop beh sc e H (ob # rest) w = leaveLoop beh sc e H rest w"
  using assms by (auto simp: hovered_def)

lemma leaveLoop_leave:
  assumes "hovered w ob" and "ob \<notin> set H"
    and "map_of (interactables (manager w)) ob = Some r"
  shows "leaveLoop beh sc e H (ob # rest) w =
     leaveLoop beh sc e H rest
       (snd (snd (fire beh r (new_InteractEvent Pointerleave ob (getIntersection sc ob) e)
          (unhover ob w))))"
  using assms
  by (cases "fire beh r (new_InteractEvent Pointerleave ob (getIntersection sc ob) e) (unhover ob w)")
    (auto simp: hovered_def unhover_def Let_def)

lemma leaveLoop_gone:
  assumes "hovered w ob" and "ob \<notin> set H"
    and "map_of (interactables (manager w)) ob = None"
  shows "leaveLoop beh sc e H (ob # rest) w = leaveLoop beh sc e H rest (unhover ob w)"
  using assms by (auto simp: hovered_def unhover_def Let_def)

declare enterLoop.simps(2) [simp del] leaveLoop.simps(2) [simp del]

lemma trace_hover [simp]: "trace (hover ob w) = trace w"
  by (simp add: hover_def)

lemma trace_unhover [simp]: "trace (unhover ob w) = trace w"
  by (simp add: unhover_def)

lemma interactables_hover [simp]:
  "interactables (manager (hover ob w)) = interactables (manager w)"
  by (simp add: hover_def)

lemma interactables_unhover [simp]:
  "interactables (manager (unhover ob w)) = interactables (manager w)"
  by (simp add: unhover_def)

lemma hovered_hover [simp]: "hovered (hover ob w) ob' \<longleftrightarrow> ob' = ob \<or> hovered w ob'"
  by (auto simp: hover_def hovered_def)

lemma hovered_unhover [simp]: "hovered (unhover ob w) ob' \<longleftrightarrow> ob' \<noteq> ob \<and> hovered w ob'"
  by (auto simp: unhover_def hovered_def)

lemma enterLoop_kept:
  assumes "kept allowed P" and "handlers_only beh allowed"
    and "\<And>ob w. P w \<Longrightarrow> P (hover ob w)"
  shows "P w \<Longrightarrow> P (enterLoop beh e hits w)"
proof (induction hits arbitrary: w)
  case Nil
  then show ?case by simp
next
  case (Cons i rest)
  show ?case
  proof (cases "map_of (interactables (manager w)) (object i) = None \<or> hovered w (object i)")
    case True
    then show ?thesis using Cons by (simp add: enterLoop_skip)
  next
    case False
    then obtain r where r: "map_of (interactables (manager w)) (object i) = Some r"
      and nh: "\<not> hovered w (object i)" by auto
    let ?f = "fire beh r (mk_event Pointerenter e (0, 0) i) (hover (object i) w)"
    have "P (hover (object i) w)" using Cons.prems by (rule assms(3))
    then have "P (snd (snd ?f))" by (rule fire_kept [OF assms(1,2)])
    then show ?thesis
      using Cons.IH by (simp add: enterLoop_new [OF r nh])
  qed
qed

lemma leaveLoop_kept:
  assumes "kept allowed P" and "handlers_only beh allowed"
    and "\<And>ob w. P w \<Longrightarrow> P (unhover ob w)"
  shows "P w \<Longrightarrow> P (leaveLoop beh sc e H S w)"
proof (induction S arbitrary: w)
  case Nil
  then show ?case by simp
next
  case (Cons ob rest)
  show ?case
  proof (cases "\<not> hovered w ob \<or> ob \<in> set H")
    case True
    then show ?thesis using Cons by (simp add: leaveLoop_skip)
  next
    case False
    then have h: "hovered w ob" "ob \<notin> set H" by auto
    have P1: "P (unhover ob w)" using Cons.prems by (rule assms(3))
    show ?thesis
    proof (cases "map_of (interactables (manager w)) ob")
      case None
      with P1 Cons.IH show ?thesis by (simp add: leaveLoop_gone [OF h])
    next
      case (Some r)
      let ?f = "fire beh r (new_InteractEvent Pointerleave ob (getIntersection sc ob) e)
          (unhover ob w)"
      have "P (snd (snd ?f))" using P1 by (rule fire_kept [OF assms(1,2)])
      then show ?thesis
        using Cons.IH by (simp add: leaveLoop_leave [OF h Some])
    qed
  qed
qed

lemma processRaycast_kept:
  assumes "kept allowed P" and "handlers_only beh allowed"
    and "\<And>ob w. P w \<Longrightarrow> P (hover ob w)" and "\<And>ob w. P w \<Longrightarrow> P (unhover ob w)"
  shows "P w \<Longrightarrow> P (processRaycast beh sc e w)"
  unfolding processRaycast_def Let_def
  by (intro leaveLoop_kept [OF assms(1,2,4)] enterLoop_kept [OF assms(1,2,3)])

subsection \<open>What the handlers cannot change in the coordinator\<close>

lemma by_manager:
  assumes "manager w' = manager w"
  shows "hovered w' ob = hovered w ob" and "registered w' ob = registered w ob"
    and "targets_ok w' = targets_ok w"
  using assms by (simp_all add: hovered_def registered_def targets_ok_def cong: option.case_cong)

lemma hovered_registry [simp]:
  "hovered (on r ty h w) ob = hovered w ob"
  "hovered (off r ty ho w) ob = hovered w ob"
  "hovered (removeAll_handlers r w) ob = hovered w ob"
  "hovered (w\<lparr>trace := t\<rparr>) ob = hovered w ob"
  by (rule by_manager(1), simp)+

lemma registered_registry [simp]:
  "registered (on r ty h w) ob = registered w ob"
  "registered (off r ty ho w) ob = registered w ob"
  "registered (removeAll_handlers r w) ob = registered w ob"
  "registered (w\<lparr>trace := t\<rparr>) ob = registered w ob"
  by (rule by_manager(2), simp)+

lemma targets_ok_registry [simp]:
  "targets_ok (on r ty h w) = targets_ok w"
  "targets_ok (off r ty ho w) = targets_ok w"
  "targets_ok (removeAll_handlers r w) = targets_ok w"
  "targets_ok (w\<lparr>trace := t\<rparr>) = targets_ok w"
  by (rule by_manager(3), simp)+

lemma manager_add:
  "manager (snd (add ob w)) =
     (case map_of (interactables (manager w)) ob of
        Some r \<Rightarrow> manager w
      | None \<Rightarrow> (manager w)
          \<lparr>interactables := interactables (manager w) @ [(ob, length (wrappers w))]\<rparr>)"
  by (simp add: add_def Let_def split: option.splits)

lemma lookup_add:
  "map_of (interactables (manager w)) ob = Some r \<Longrightarrow>
   map_of (interactables (manager (snd (add ob' w)))) ob = Some r"
  by (simp add: manager_add map_of_snoc split: option.splits del: map_of_append)

lemma lookup_remove:
  "ob' \<noteq> ob \<Longrightarrow>
   map_of (interactables (manager (remove_object ob' w))) ob = map_of (interactables (manager w)) ob"
  by (simp add: remove_object_def map_of_others)

lemma hovered_add [simp]: "hovered (snd (add ob' w)) ob = hovered w ob"
  by (simp add: hovered_def manager_add split: option.splits)

lemma hovered_remove [simp]: "hovered (remove_object ob' w) ob \<longleftrightarrow> ob \<noteq> ob' \<and> hovered w ob"
  by (auto simp: hovered_def remove_object_def)

lemma hovered_exec:
  "hovered (snd (exec act (ev, w))) ob \<longleftrightarrow> hovered w ob \<and> act \<noteq> Remove ob"
  by (cases act) auto

lemma kept_lookup:
  "kept (\<lambda>act. act \<noteq> Remove ob) (\<lambda>w. map_of (interactables (manager w)) ob = Some r)"
  unfolding kept_def
proof (intro conjI allI impI)
  fix act ev and w :: world
  assume "act \<noteq> Remove ob" and "map_of (interactables (manager w)) ob = Some r"
  then show "map_of (interactables (manager (snd (exec act (ev, w))))) ob = Some r"
    by (cases act) (simp_all add: lookup_add lookup_remove)
qed simp

lemma kept_hovered: "kept (\<lambda>act. act \<noteq> Remove ob) (\<lambda>w. hovered w ob)"
  by (simp add: kept_def hovered_exec)

lemma kept_not_hovered: "kept (\<lambda>act. True) (\<lambda>w. \<not> hovered w ob)"
  by (simp add: kept_def hovered_exec)

lemma kept_no_drag: "kept (\<lambda>act. True) (\<lambda>w. dragObject (manager w) = None)"
  unfolding kept_def
proof (intro conjI allI impI)
  fix act ev and w :: world
  assume "dragObject (manager w) = None"
  then show "dragObject (manager (snd (exec act (ev, w)))) = None"
    by (cases act) (simp_all add: manager_add remove_object_def split: option.splits)
qed simp

lemma registered_add: "registered w ob \<Longrightarrow> registered (snd (add ob' w)) ob"
  using lookup_add [of w ob _ ob'] by (auto simp: registered_def)

lemma targets_add:
  "dragObject (manager (snd (add ob' w))) = dragObject (manager w)"
  "activeObject (manager (snd (add ob' w))) = activeObject (manager w)"
  by (simp_all add: manager_add split: option.splits)

lemma targets_remove:
  "dragObject (manager (remove_object ob' w)) =
     (if dragObject (manager w) = Some ob' then None else dragObject (manager w))"
  "activeObject (manager (remove_object ob' w)) =
     (if activeObject (manager w) = Some ob' then None else activeObject (manager w))"
  by (simp_all add: remove_object_def)

lemma registered_remove: "registered (remove_object ob' w) ob \<longleftrightarrow> ob \<noteq> ob' \<and> registered w ob"
proof (cases "ob = ob'")
  case True
  then show ?thesis by (simp add: registered_def remove_object_def map_of_removed)
next
  case False
  then show ?thesis using lookup_remove [of ob' ob w] by (simp add: registered_def)
qed

lemma targets_ok_exec: "targets_ok w \<Longrightarrow> targets_ok (snd (exec act (ev, w)))"
proof (cases act)
  case (Add ob')
  assume "targets_ok w"
  then show ?thesis
    unfolding Add targets_ok_def
    by (auto simp: targets_add registered_add split: option.splits)
next
  case (Remove ob')
  assume "targets_ok w"
  then show ?thesis
    unfolding Remove targets_ok_def
    by (auto simp: targets_remove registered_remove split: option.splits)
qed simp_all

lemma kept_targets_ok: "kept (\<lambda>act. True) targets_ok"
  unfolding kept_def by (simp add: targets_ok_exec)

subsection \<open>The types of the events each phase dispatches\<close>

lemma typed_Nil [simp]: "typed tys []"
  by (simp add: typed_def)

lemma typed_append [simp]: "typed tys (es @ es') \<longleftrightarrow> typed tys es \<and> typed tys es'"
  by (auto simp: typed_def)

lemma typed_Dispatched [simp]:
  "typed tys (Dispatched r ev # es) \<longleftrightarrow> etype ev \<in> tys \<and> typed tys es"
  by (auto simp: typed_def)

lemma typed_calls: "calls_for ev es \<Longrightarrow> typed tys es"
  by (simp add: typed_def calls_for_def)

lemma typed_mono: "typed tys es \<Longrightarrow> tys \<subseteq> tys' \<Longrightarrow> typed tys' es"
  by (auto simp: typed_def)

lemma typed_events_of: "typed tys es \<Longrightarrow> ty \<notin> tys \<Longrightarrow> events_of ty es = []"
  by (auto simp: typed_def events_of_def filter_empty_conv)

lemma events_of_simps [simp]:
  "events_of ty [] = []"
  "events_of ty (es @ es') = events_of ty es @ events_of ty es'"
  "events_of ty (Dispatched r ev # es) =
     (if etype ev = ty then (r, ev) # events_of ty es else events_of ty es)"
  "events_of ty (Invoked h ev # es) = events_of ty es"
  by (simp_all add: events_of_def)

lemma events_of_calls: "calls_for ev es \<Longrightarrow> events_of ty es = []"
  by (simp add: events_of_def calls_for_def)

lemma hitLoop_typed:
  assumes "\<And>ob w. trace (post ob w) = trace w" and "\<And>i. etype (mk i) = ty"
  shows "\<exists>es. trace (hitLoop beh mk post hits w) = trace w @ es \<and> typed {ty} es"
proof -
  obtain es where es: "trace (hitLoop beh mk post hits w) = trace w @ es"
    "subseq (map snd (dispatches es)) (map mk hits)"
    using hitLoop_trace [of post beh mk hits w, OF assms(1)] by blast
  have "etype (snd p) = ty" if "p \<in> set (dispatches es)" for p
  proof -
    from that have "snd p \<in> set (map snd (dispatches es))" by simp
    with es(2) obtain y where "y \<in> set (map mk hits)" "snd p = y"
      by (rule list_emb_set)
    with assms(2) show ?thesis by auto
  qed
  with es(1) show ?thesis by (auto simp: typed_def)
qed

lemma etype_new [simp]: "etype (new_InteractEvent ty ob i e) = ty"
  by (simp add: new_InteractEvent_def)

lemma target_new [simp]: "target (new_InteractEvent ty ob i e) = ob"
  by (simp add: new_InteractEvent_def)

lemma etype_mk_event [simp]: "etype (mk_event ty e d i) = ty"
  by (simp add: mk_event_def new_InteractEvent_def)

lemma target_mk_event [simp]: "target (mk_event ty e d i) = object i"
  by (simp add: mk_event_def new_InteractEvent_def)

lemma fire_typed:
  "\<exists>es. trace (snd (snd (fire beh r ev w))) = trace w @ es \<and> typed {etype ev} es"
  using fire_trace [of beh r ev w] by (auto simp: typed_calls)

lemma enterLoop_typed:
  "\<exists>es. trace (enterLoop beh e hits w) = trace w @ es \<and> typed {Pointerenter} es"
proof (induction hits arbitrary: w)
  case Nil
  show ?case by simp
next
  case (Cons i rest)
  show ?case
  proof (cases "map_of (interactables (manager w)) (object i) = None \<or> hovered w (object i)")
    case True
    then show ?thesis using Cons [of w] by (simp add: enterLoop_skip)
  next
    case False
    then obtain r where r: "map_of (interactables (manager w)) (object i) = Some r"
      and nh: "\<not> hovered w (object i)" by auto
    let ?w' = "snd (snd (fire beh r (mk_event Pointerenter e (0, 0) i) (hover (object i) w)))"
    obtain es1 where es1: "trace ?w' = trace w @ es1" "typed {Pointerenter} es1"
      using fire_typed [of beh r "mk_event Pointerenter e (0, 0) i" "hover (object i) w"]
      by auto
    obtain es2 where es2: "trace (enterLoop beh e rest ?w') = trace ?w' @ es2"
      "typed {Pointerenter} es2"
      using Cons [of ?w'] by blast
    from es1 es2 show ?thesis
      by (auto simp: enterLoop_new [OF r nh])
  qed
qed

lemma leaveLoop_typed:
  "\<exists>es. trace (leaveLoop beh sc e H S w) = trace w @ es \<and> typed {Pointerleave} es"
proof (induction S arbitrary: w)
  case Nil
  show ?case by simp
next
  case (Cons ob rest)
  show ?case
  proof (cases "\<not> hovered w ob \<or> ob \<in> set H")
    case True
    then show ?thesis using Cons [of w] by (simp add: leaveLoop_skip)
  next
    case False
    then have h: "hovered w ob" "ob \<notin> set H" by auto
    show ?thesis
    proof (cases "map_of (interactables (manager w)) ob")
      case None
      with Cons [of "unhover ob w"] show ?thesis by (simp add: leaveLoop_gone [OF h])
    next
      case (Some r)
      let ?ev = "new_InteractEvent Pointerleave ob (getIntersection sc ob) e"
      let ?w' = "snd (snd (fire beh r ?ev (unhover ob w)))"
      obtain es1 where es1: "trace ?w' = trace w @ es1" "typed {Pointerleave} es1"
        using fire_typed [of beh r ?ev "unhover ob w"] by auto
      obtain es2 where es2: "trace (leaveLoop beh sc e H rest ?w') = trace ?w' @ es2"
        "typed {Pointerleave} es2"
        using Cons [of ?w'] by blast
      from es1 es2 show ?thesis
        by (auto simp: leaveLoop_leave [OF h Some])
    qed
  qed
qed

lemma processRaycast_typed:
  "\<exists>es. trace (processRaycast beh sc e w) = trace w @ es
        \<and> typed {Pointerenter, Pointerleave} es"
proof -
  let ?w1 = "enterLoop beh e (performRaycast sc w) w"
  obtain es1 where es1: "trace ?w1 = trace w @ es1" "typed {Pointerenter} es1"
    using enterLoop_typed by blast
  obtain es2 where es2: "trace (processRaycast beh sc e w) = trace ?w1 @ es2"
    "typed {Pointerleave} es2"
    unfolding processRaycast_def Let_def using leaveLoop_typed by blast
  have "typed {Pointerenter, Pointerleave} es1" "typed {Pointerenter, Pointerleave} es2"
    using es1(2) es2(2) by (auto intro: typed_mono)
  with es1 es2 show ?thesis by auto
qed

subsection \<open>updatePointer\<close>

lemma updatePointer_delta:
  "fst (updatePointer e w) =
     (clientX e - fst (lastMousePosition (manager w)),
      clientY e - snd (lastMousePosition (manager w)))"
  by (simp add: updatePointer_def Let_def)

lemma updatePointer_state [simp]:
  "trace (snd (updatePointer e w)) = trace w"
  "wrappers (snd (updatePointer e w)) = wrappers w"
  "arrays (snd (updatePointer e w)) = arrays w"
  "interactables (manager (snd (updatePointer e w))) = interactables (manager w)"
  "hoveredObjects (manager (snd (updatePointer e w))) = hoveredObjects (manager w)"
  "dragObject (manager (snd (updatePointer e w))) = dragObject (manager w)"
  "activeObject (manager (snd (updatePointer e w))) = activeObject (manager w)"
  by (simp_all add: updatePointer_def Let_def)

lemma performRaycast_updatePointer [simp]:
  "performRaycast sc (snd (updatePointer e w)) = performRaycast sc w"
  by (simp add: performRaycast_def)

lemma updatePointer_preds [simp]:
  "hovered (snd (updatePointer e w)) ob = hovered w ob"
  "registered (snd (updatePointer e w)) ob = registered w ob"
  "targets_ok (snd (updatePointer e w)) = targets_ok w"
  by (simp_all add: hovered_def registered_def targets_ok_def cong: option.case_cong)

lemma onClick_eq:
  "onClick beh sc e w = clickLoop beh e (performRaycast sc w) (snd (updatePointer e w))"
  by (simp add: onClick_def case_prod_beta)

lemma onPointerDown_eq:
  "onPointerDown beh sc e w = downLoop beh e (performRaycast sc w) (snd (updatePointer e w))"
  by (simp add: onPointerDown_def case_prod_beta)

lemma onPointerUp_eq:
  "onPointerUp beh sc e w =
     (let w1 = (snd (updatePointer e w))
                 \<lparr>manager := (manager (snd (updatePointer e w)))\<lparr>dragObject := None\<rparr>\<rparr>;
          w2 = upLoop beh e (performRaycast sc w) w1
      in w2\<lparr>manager := (manager w2)\<lparr>activeObject := None\<rparr>\<rparr>)"
  by (simp add: onPointerUp_def performRaycast_def Let_def case_prod_beta)

lemma onPointerMove_eq:
  "onPointerMove beh sc e w =
     (let d = fst (updatePointer e w);
          w1 = dragStep beh sc e d (snd (updatePointer e w));
          w2 = moveLoop beh e d (performRaycast sc w1) w1
      in processRaycast beh sc e w2)"
  by (simp add: onPointerMove_def Let_def case_prod_beta)

subsection \<open>The targets after onPointerDown\<close>

lemma capture_state [simp]:
  "trace (capture ob w) = trace w"
  "dragObject (manager (capture ob w)) = Some ob"
  "activeObject (manager (capture ob w)) = Some ob"
  "interactables (manager (capture ob w)) = interactables (manager w)"
  by (simp_all add: capture_def)

lemma downLoop_last:
  assumes "\<And>i. target (mk i) = object i"
  shows "\<exists>es. trace (hitLoop beh mk capture hits w) = trace w @ es
     \<and> (dispatches es = [] \<longrightarrow> hitLoop beh mk capture hits w = w)
     \<and> (dispatches es \<noteq> [] \<longrightarrow>
          dragObject (manager (hitLoop beh mk capture hits w))
            = Some (target (snd (last (dispatches es))))
        \<and> activeObject (manager (hitLoop beh mk capture hits w))
            = Some (target (snd (last (dispatches es)))))"
proof (induction hits arbitrary: w)
  case Nil
  show ?case by simp
next
  case (Cons i rest)
  show ?case
  proof (cases "map_of (interactables (manager w)) (object i)")
    case None
    with Cons [of w] show ?thesis by (simp add: hitLoop_skip)
  next
    case (Some r)
    let ?w1 = "hitLoop beh mk capture [i] w"
    have w1: "?w1 = capture (object i) (snd (snd (fire beh r (mk i) w)))"
      using Some by (rule hitLoop_single)
    have "\<exists>es. trace ?w1 = trace w @ Dispatched r (mk i) # es \<and> calls_for (mk i) es"
      by (rule hitLoop_single_trace [OF Some]) simp
    then obtain es1 where es1: "trace ?w1 = trace w @ Dispatched r (mk i) # es1"
      "dispatches es1 = []"
      by (auto simp: calls_for_def)
    have t1: "dragObject (manager ?w1) = Some (object i)"
      "activeObject (manager ?w1) = Some (object i)"
      unfolding w1 by simp_all
    show ?thesis
    proof (cases "stopped (fst (snd (fire beh r (mk i) w)))")
      case True
      have "hitLoop beh mk capture (i # rest) w = ?w1"
        using Some True by (rule hitLoop_stop)
      with es1 t1 assms show ?thesis
        by (intro exI [of _ "Dispatched r (mk i) # es1"]) simp
    next
      case False
      have eq: "hitLoop beh mk capture (i # rest) w = hitLoop beh mk capture rest ?w1"
        using Some False by (rule hitLoop_continue)
      from Cons [of ?w1] obtain es2 where es2:
        "trace (hitLoop beh mk capture rest ?w1) = trace ?w1 @ es2"
        "dispatches es2 = [] \<longrightarrow> hitLoop beh mk capture rest ?w1 = ?w1"
        "dispatches es2 \<noteq> [] \<longrightarrow>
          dragObject (manager (hitLoop beh mk capture rest ?w1))
            = Some (target (snd (last (dispatches es2))))
        \<and> activeObject (manager (hitLoop beh mk capture rest ?w1))
            = Some (target (snd (last (dispatches es2))))"
        by blast
      show ?thesis
      proof (cases "dispatches es2 = []")
        case True
        with es2(2) have "hitLoop beh mk capture rest ?w1 = ?w1" by simp
        with eq es1 es2(1) t1 True assms show ?thesis
          by (intro exI [of _ "Dispatched r (mk i) # es1 @ es2"]) simp
      next
        case False
        with eq es1 es2 show ?thesis
          by (intro exI [of _ "Dispatched r (mk i) # es1 @ es2"]) simp
      qed
    qed
  qed
qed

lemma subseq_member: "subseq xs ys \<Longrightarrow> x \<in> set xs \<Longrightarrow> x \<in> set ys"
  by (erule list_emb_set) auto

subsection \<open>The drag dispatch and the phases of onPointerMove\<close>

lemma dragStep_none:
  "dragObject (manager w) = None \<Longrightarrow> dragStep beh sc e d w = w"
  by (simp add: dragStep_def)

lemma dragStep_some:
  assumes "dragObject (manager w) = Some ob" and "map_of (interactables (manager w)) ob = Some r"
  shows "dragStep beh sc e d w =
     snd (snd (fire beh r ((new_InteractEvent Drag ob (getIntersection sc ob) e)\<lparr>delta := d\<rparr>) w))"
  using assms by (simp add: dragStep_def)

lemma dragStep_kept:
  assumes "kept allowed P" and "handlers_only beh allowed" and "P w"
  shows "P (dragStep beh sc e d w)"
  using assms(3) fire_kept [OF assms]
  by (simp add: dragStep_def split: option.splits)

lemma moveLoop_typed:
  "\<exists>es. trace (moveLoop beh e d hits w) = trace w @ es \<and> typed {Pointermove} es"
  unfolding moveLoop_hitLoop by (rule hitLoop_typed) simp_all

lemma upLoop_typed:
  "\<exists>es. trace (upLoop beh e hits w) = trace w @ es \<and> typed {Pointerup} es"
  unfolding upLoop_hitLoop by (rule hitLoop_typed) simp_all

lemma after_drag_typed:
  "\<exists>es. trace (processRaycast beh sc e (moveLoop beh e d hits w)) = trace w @ es
        \<and> typed {Pointermove, Pointerenter, Pointerleave} es"
proof -
  let ?w2 = "moveLoop beh e d hits w"
  obtain es1 where es1: "trace ?w2 = trace w @ es1" "typed {Pointermove} es1"
    using moveLoop_typed by blast
  obtain es2 where es2: "trace (processRaycast beh sc e ?w2) = trace ?w2 @ es2"
    "typed {Pointerenter, Pointerleave} es2"
    using processRaycast_typed by blast
  have "typed {Pointermove, Pointerenter, Pointerleave} es1"
    "typed {Pointermove, Pointerenter, Pointerleave} es2"
    using es1(2) es2(2) by (auto intro: typed_mono)
  with es1 es2 show ?thesis by auto
qed

lemma pointermove_drag_events:
  "events_of Drag (since w (onPointerMove beh sc e w)) =
     (case dragObject (manager w) of
        None \<Rightarrow> []
      | Some ob \<Rightarrow>
          (case map_of (interactables (manager w)) ob of
             None \<Rightarrow> []
           | Some r \<Rightarrow>
               [(r, (new_InteractEvent Drag ob (getIntersection sc ob) e)
                      \<lparr>delta := (clientX e - fst (lastMousePosition (manager w)),
                                 clientY e - snd (lastMousePosition (manager w)))\<rparr>)]))"
proof -
  let ?d = "fst (updatePointer e w)"
  let ?w0 = "snd (updatePointer e w)"
  let ?w1 = "dragStep beh sc e ?d ?w0"
  let ?w' = "processRaycast beh sc e (moveLoop beh e ?d (performRaycast sc ?w1) ?w1)"
  have mv: "onPointerMove beh sc e w = ?w'"
    by (simp add: onPointerMove_eq Let_def)
  obtain es2 where es2: "trace ?w' = trace ?w1 @ es2"
    "typed {Pointermove, Pointerenter, Pointerleave} es2"
    using after_drag_typed by blast
  have no2: "events_of Drag es2 = []"
    using es2(2) by (rule typed_events_of) simp
  show ?thesis
  proof (cases "dragObject (manager w)")
    case None
    then have "?w1 = ?w0" by (simp add: dragStep_none)
    with es2 no2 None show ?thesis unfolding mv by simp
  next
    case (Some ob)
    show ?thesis
    proof (cases "map_of (interactables (manager w)) ob")
      case None
      with Some have "?w1 = ?w0" by (simp add: dragStep_def)
      with es2 no2 None Some show ?thesis unfolding mv by simp
    next
      case r: (Some r)
      let ?ev = "(new_InteractEvent Drag ob (getIntersection sc ob) e)\<lparr>delta := ?d\<rparr>"
      have "?w1 = snd (snd (fire beh r ?ev ?w0))"
        using Some r by (simp add: dragStep_some)
      then obtain es1 where es1: "trace ?w1 = trace ?w0 @ Dispatched r ?ev # es1"
        "calls_for ?ev es1"
        using fire_trace [of beh r ?ev ?w0] by auto
      have "etype ?ev = Drag" by (simp add: new_InteractEvent_def)
      with es1 es2 no2 Some r show ?thesis
        unfolding mv by (simp add: events_of_calls updatePointer_delta)
    qed
  qed
qed

subsection \<open>onPointerUp\<close>

lemma pointerup_no_drag: "dragObject (manager (onPointerUp beh sc e w)) = None"
proof -
  let ?w1 = "(snd (updatePointer e w))
                 \<lparr>manager := (manager (snd (updatePointer e w)))\<lparr>dragObject := None\<rparr>\<rparr>"
  have "dragObject (manager ?w1) = None" by simp
  then have "dragObject (manager (hitLoop beh (mk_event Pointerup e (0, 0)) (\<lambda>ob w. w)
      (performRaycast sc w) ?w1)) = None"
    by (intro hitLoop_kept [OF kept_no_drag]) (simp_all add: handlers_only_def)
  then show ?thesis
    by (simp add: onPointerUp_eq Let_def upLoop_hitLoop)
qed

lemma pointerup_typed:
  "\<exists>es. trace (onPointerUp beh sc e w) = trace w @ es \<and> typed {Pointerup} es"
proof -
  let ?w1 = "(snd (updatePointer e w))
                 \<lparr>manager := (manager (snd (updatePointer e w)))\<lparr>dragObject := None\<rparr>\<rparr>"
  obtain es where "trace (upLoop beh e (performRaycast sc w) ?w1) = trace ?w1 @ es"
    "typed {Pointerup} es"
    using upLoop_typed by blast
  then show ?thesis by (simp add: onPointerUp_eq Let_def)
qed

subsection \<open>A pointerdown sample with one hit\<close>

lemma handlers_only_mono:
  "handlers_only beh allowed \<Longrightarrow> (\<And>act. allowed act \<Longrightarrow> allowed' act) \<Longrightarrow>
   handlers_only beh allowed'"
  by (auto simp: handlers_only_def)

lemma handlers_only_any [simp]: "handlers_only beh (\<lambda>act. True)"
  by (simp add: handlers_only_def)

lemma kept_last_position: "kept (\<lambda>act. True) (\<lambda>w. lastMousePosition (manager w) = p)"
  unfolding kept_def
proof (intro conjI allI impI)
  fix act ev and w :: world
  assume "lastMousePosition (manager w) = p"
  then show "lastMousePosition (manager (snd (exec act (ev, w)))) = p"
    by (cases act) (simp_all add: manager_add remove_object_def split: option.splits)
qed simp

lemma pointerdown_single:
  assumes "performRaycast sc w = [i]" and "map_of (interactables (manager w)) (object i) = Some r"
  shows "onPointerDown beh sc e w =
     capture (object i)
       (snd (snd (fire beh r (mk_event Pointerdown e (0, 0) i) (snd (updatePointer e w)))))"
proof -
  have "map_of (interactables (manager (snd (updatePointer e w)))) (object i) = Some r"
    using assms(2) by simp
  then show ?thesis
    using assms(1)
    by (simp add: onPointerDown_eq downLoop_hitLoop
        hitLoop_single [where mk = "mk_event Pointerdown e (0, 0)"])
qed

lemma pointerdown_single_state:
  assumes "performRaycast sc w = [i]" and "map_of (interactables (manager w)) (object i) = Some r"
  shows "dragObject (manager (onPointerDown beh sc e w)) = Some (object i)"
    and "lastMousePosition (manager (onPointerDown beh sc e w)) = (clientX e, clientY e)"
    and "never_removes beh (object i) \<Longrightarrow>
         map_of (interactables (manager (onPointerDown beh sc e w))) (object i) = Some r"
proof -
  let ?w0 = "snd (updatePointer e w)"
  let ?w' = "snd (snd (fire beh r (mk_event Pointerdown e (0, 0) i) ?w0))"
  have eq: "onPointerDown beh sc e w = capture (object i) ?w'"
    using assms by (rule pointerdown_single)
  show "dragObject (manager (onPointerDown beh sc e w)) = Some (object i)"
    unfolding eq by simp
  have "lastMousePosition (manager ?w0) = (clientX e, clientY e)"
    by (simp add: updatePointer_def Let_def)
  then have "lastMousePosition (manager ?w') = (clientX e, clientY e)"
    by (intro fire_kept [OF kept_last_position]) simp_all
  then show "lastMousePosition (manager (onPointerDown beh sc e w)) = (clientX e, clientY e)"
    unfolding eq by (simp add: capture_def)
  assume "never_removes beh (object i)"
  then have h: "handlers_only beh (\<lambda>act. act \<noteq> Remove (object i))"
    by (simp add: never_removes_def)
  have "map_of (interactables (manager ?w0)) (object i) = Some r" using assms(2) by simp
  then have "map_of (interactables (manager ?w')) (object i) = Some r"
    by (rule fire_kept [OF kept_lookup h])
  then show "map_of (interactables (manager (onPointerDown beh sc e w))) (object i) = Some r"
    unfolding eq by simp
qed

subsection \<open>The targets stay registered\<close>

lemma targets_ok_updates [simp]:
  "targets_ok (hover ob w) = targets_ok w"
  "targets_ok (unhover ob w) = targets_ok w"
  by (simp_all add: targets_ok_def registered_def hover_def unhover_def cong: option.case_cong)

lemma targets_ok_clear:
  assumes "targets_ok w"
  shows "targets_ok (w\<lparr>manager := (manager w)\<lparr>dragObject := None\<rparr>\<rparr>)"
    and "targets_ok (w\<lparr>manager := (manager w)\<lparr>activeObject := None\<rparr>\<rparr>)"
  using assms by (simp_all add: targets_ok_def registered_def cong: option.case_cong)

lemma targets_ok_capture: "registered w ob \<Longrightarrow> targets_ok (capture ob w)"
  by (simp add: targets_ok_def registered_def capture_def)

lemma targets_ok_remove: "targets_ok w \<Longrightarrow> targets_ok (remove_object ob w)"
  using targets_ok_exec [of w "Remove ob"] by simp

lemma targets_ok_add: "targets_ok w \<Longrightarrow> targets_ok (snd (add ob w))"
  using targets_ok_exec [of w "Add ob"] by simp

lemma targets_ok_click: "targets_ok w \<Longrightarrow> targets_ok (onClick beh sc e w)"
  unfolding onClick_eq clickLoop_hitLoop
  by (intro hitLoop_kept [OF kept_targets_ok]) simp_all

lemma targets_ok_up: "targets_ok w \<Longrightarrow> targets_ok (onPointerUp beh sc e w)"
  unfolding onPointerUp_eq Let_def upLoop_hitLoop
  by (intro targets_ok_clear hitLoop_kept [OF kept_targets_ok]) simp_all

lemma targets_ok_move: "targets_ok w \<Longrightarrow> targets_ok (onPointerMove beh sc e w)"
  unfolding onPointerMove_eq Let_def moveLoop_hitLoop
  by (intro processRaycast_kept [OF kept_targets_ok] hitLoop_kept [OF kept_targets_ok]
      dragStep_kept [OF kept_targets_ok]) simp_all

lemma kept_registered: "kept (\<lambda>act. act \<noteq> Remove ob) (\<lambda>w. registered w ob)"
  unfolding kept_def
proof (intro conjI allI impI)
  fix act ev and w :: world
  assume "act \<noteq> Remove ob" and "registered w ob"
  then show "registered (snd (exec act (ev, w))) ob"
    by (cases act) (simp_all add: registered_add registered_remove)
qed simp

lemma downLoop_targets_ok:
  assumes "handlers_only beh (\<lambda>act. \<not> is_remove act)"
  shows "targets_ok w \<Longrightarrow> targets_ok (hitLoop beh mk capture hits w)"
proof (induction hits arbitrary: w)
  case Nil
  then show ?case by simp
next
  case (Cons i rest)
  show ?case
  proof (cases "map_of (interactables (manager w)) (object i)")
    case None
    with Cons show ?thesis by (simp add: hitLoop_skip)
  next
    case (Some r)
    let ?w' = "snd (snd (fire beh r (mk i) w))"
    have h: "handlers_only beh (\<lambda>act. act \<noteq> Remove (object i))"
      using assms by (rule handlers_only_mono) auto
    have "registered w (object i)" using Some by (simp add: registered_def)
    then have "registered ?w' (object i)" by (rule fire_kept [OF kept_registered h])
    then have ok: "targets_ok (capture (object i) ?w')" by (rule targets_ok_capture)
    then have "targets_ok (hitLoop beh mk capture rest (capture (object i) ?w'))"
      by (rule Cons.IH)
    with ok show ?thesis
      by (simp add: hitLoop_registered [where mk = mk, OF Some])
  qed
qed

lemma targets_ok_down:
  "handlers_only beh (\<lambda>act. \<not> is_remove act) \<Longrightarrow> targets_ok w \<Longrightarrow>
   targets_ok (onPointerDown beh sc e w)"
  unfolding onPointerDown_eq downLoop_hitLoop
  by (rule downLoop_targets_ok) simp_all

subsection \<open>The hover events of one object\<close>

lemma events_for_simps [simp]:
  "events_for ty ob [] = []"
  "events_for ty ob (es @ es') = events_for ty ob es @ events_for ty ob es'"
  "events_for ty ob (Dispatched r ev # es) =
     (if etype ev = ty \<and> target ev = ob then (r, ev) # events_for ty ob es
      else events_for ty ob es)"
  "events_for ty ob (Invoked h ev # es) = events_for ty ob es"
  by (simp_all add: events_for_def)

lemma events_for_calls: "calls_for ev es \<Longrightarrow> events_for ty ob es = []"
  by (simp add: events_for_def calls_for_def)

lemma typed_events_for: "typed tys es \<Longrightarrow> ty \<notin> tys \<Longrightarrow> events_for ty ob es = []"
  by (auto simp: typed_def events_for_def filter_empty_conv)

text \<open>
  The first loop of \<open>processRaycast\<close>, seen from a registered object \<open>A\<close> that no
  handler removes.
\<close>

lemma enterLoop_account:
  assumes nr: "handlers_only beh (\<lambda>act. act \<noteq> Remove A)"
  shows "map_of (interactables (manager w)) A = Some r \<Longrightarrow>
    \<exists>es. trace (enterLoop beh e hits w) = trace w @ es
      \<and> map_of (interactables (manager (enterLoop beh e hits w))) A = Some r
      \<and> (hovered w A \<longrightarrow>
            events_for Pointerenter A es = [] \<and> hovered (enterLoop beh e hits w) A)
      \<and> (\<not> hovered w A \<longrightarrow>
            (hovered (enterLoop beh e hits w) A
              \<and> (\<exists>i \<in> set hits. object i = A
                    \<and> events_for Pointerenter A es = [(r, mk_event Pointerenter e (0, 0) i)]))
          \<or> (\<not> hovered (enterLoop beh e hits w) A \<and> events_for Pointerenter A es = []))"
proof (induction hits arbitrary: w)
  case Nil
  then show ?case by simp
next
  case (Cons i rest)
  note reg = Cons.prems
  show ?case
  proof (cases "map_of (interactables (manager w)) (object i) = None \<or> hovered w (object i)")
    case True
    then have eq: "enterLoop beh e (i # rest) w = enterLoop beh e rest w"
      by (rule enterLoop_skip)
    from Cons.IH [OF reg] show ?thesis unfolding eq by auto
  next
    case False
    then obtain ri where ri: "map_of (interactables (manager w)) (object i) = Some ri"
      and nh: "\<not> hovered w (object i)" by auto
    let ?ev = "mk_event Pointerenter e (0, 0) i"
    let ?w1 = "hover (object i) w"
    let ?w2 = "snd (snd (fire beh ri ?ev ?w1))"
    obtain es1 where es1: "trace ?w2 = trace w @ Dispatched ri ?ev # es1" "calls_for ?ev es1"
      using fire_trace [of beh ri ?ev ?w1] by auto
    have no1: "events_for Pointerenter A es1 = []" using es1(2) by (rule events_for_calls)
    have reg1: "map_of (interactables (manager ?w1)) A = Some r" using reg by simp
    have reg2: "map_of (interactables (manager ?w2)) A = Some r"
      using reg1 by (rule fire_kept [OF kept_lookup nr])
    have h2: "hovered ?w2 A" if "hovered ?w1 A"
      using that by (rule fire_kept [OF kept_hovered nr])
    have nh2: "\<not> hovered ?w2 A" if "\<not> hovered ?w1 A"
      using that by (intro fire_kept [OF kept_not_hovered]) simp_all
    let ?w' = "enterLoop beh e (i # rest) w"
    have res: "?w' = ?w2 \<or> ?w' = enterLoop beh e rest ?w2"
      by (simp add: enterLoop_new [OF ri nh])
    from Cons.IH [OF reg2] obtain es2 where es2:
      "trace (enterLoop beh e rest ?w2) = trace ?w2 @ es2"
      "map_of (interactables (manager (enterLoop beh e rest ?w2))) A = Some r"
      "hovered ?w2 A \<longrightarrow>
         events_for Pointerenter A es2 = [] \<and> hovered (enterLoop beh e rest ?w2) A"
      "\<not> hovered ?w2 A \<longrightarrow>
            (hovered (enterLoop beh e rest ?w2) A
              \<and> (\<exists>i \<in> set rest. object i = A
                    \<and> events_for Pointerenter A es2 = [(r, mk_event Pointerenter e (0, 0) i)]))
          \<or> (\<not> hovered (enterLoop beh e rest ?w2) A \<and> events_for Pointerenter A es2 = [])"
      by blast
    show ?thesis
    proof (cases "object i = A")
      case True
      then have ri_r: "ri = r" using ri reg by simp
      have nhA: "\<not> hovered w A" using nh True by simp
      have hA2: "hovered ?w2 A" using True by (intro h2) simp
      from res show ?thesis
      proof
        assume w': "?w' = ?w2"
        show ?thesis
          unfolding w' using es1(1) no1 reg2 hA2 nhA True ri_r
          by (intro exI [of _ "Dispatched ri ?ev # es1"]) auto
      next
        assume w': "?w' = enterLoop beh e rest ?w2"
        show ?thesis
          unfolding w' using es1(1) no1 es2 hA2 nhA True ri_r
          by (intro exI [of _ "Dispatched ri ?ev # es1 @ es2"]) auto
      qed
    next
      case False
      have same1: "hovered ?w1 A = hovered w A" using False by auto
      have same2: "hovered ?w2 A = hovered w A"
        using h2 nh2 same1 by blast
      have skip: "events_for Pointerenter A (Dispatched ri ?ev # es1) = []"
        using False no1 by simp
      from res show ?thesis
      proof
        assume w': "?w' = ?w2"
        show ?thesis
          unfolding w' using es1(1) skip reg2 same2
          by (intro exI [of _ "Dispatched ri ?ev # es1"]) auto
      next
        assume w': "?w' = enterLoop beh e rest ?w2"
        have tr: "trace (enterLoop beh e rest ?w2) = trace w @ (Dispatched ri ?ev # es1) @ es2"
          using es1(1) es2(1) by simp
        have ev: "events_for Pointerenter A ((Dispatched ri ?ev # es1) @ es2)
            = events_for Pointerenter A es2"
          using skip by (simp only: events_for_simps(2)) simp
        show ?thesis
          unfolding w' using tr ev es2(2,3,4) same2
          by (intro exI [of _ "(Dispatched ri ?ev # es1) @ es2"]) auto
      qed
    qed
  qed
qed

text \<open>The second loop of \<open>processRaycast\<close>, seen from such an object.\<close>

lemma leaveLoop_account:
  assumes nr: "handlers_only beh (\<lambda>act. act \<noteq> Remove A)"
  shows "map_of (interactables (manager w)) A = Some r \<Longrightarrow>
    \<exists>es. trace (leaveLoop beh sc e H S w) = trace w @ es
      \<and> map_of (interactables (manager (leaveLoop beh sc e H S w))) A = Some r
      \<and> (hovered w A \<and> A \<notin> set H \<and> A \<in> set S \<longrightarrow>
            events_for Pointerleave A es
              = [(r, new_InteractEvent Pointerleave A (getIntersection sc A) e)]
          \<and> \<not> hovered (leaveLoop beh sc e H S w) A)
      \<and> (\<not> hovered w A \<longrightarrow>
            events_for Pointerleave A es = [] \<and> \<not> hovered (leaveLoop beh sc e H S w) A)
      \<and> (A \<in> set H \<longrightarrow>
            events_for Pointerleave A es = []
          \<and> hovered (leaveLoop beh sc e H S w) A = hovered w A)"
proof (induction S arbitrary: w)
  case Nil
  then show ?case by simp
next
  case (Cons ob rest)
  note reg = Cons.prems
  let ?w' = "leaveLoop beh sc e H (ob # rest) w"
  show ?case
  proof (cases "\<not> hovered w ob \<or> ob \<in> set H")
    case True
    then have eq: "?w' = leaveLoop beh sc e H rest w" by (rule leaveLoop_skip)
    have "A \<in> set rest" if "hovered w A" "A \<notin> set H" "A \<in> set (ob # rest)"
      using that True by auto
    with Cons.IH [OF reg] show ?thesis unfolding eq by auto
  next
    case False
    then have h: "hovered w ob" "ob \<notin> set H" by auto
    let ?w1 = "unhover ob w"
    have reg1: "map_of (interactables (manager ?w1)) A = Some r" using reg by simp
    show ?thesis
    proof (cases "map_of (interactables (manager w)) ob")
      case None
      with reg have ne: "ob \<noteq> A" by auto
      have eq: "?w' = leaveLoop beh sc e H rest ?w1"
        using h None by (rule leaveLoop_gone)
      have same: "hovered ?w1 A = hovered w A" using ne by auto
      have "A \<in> set rest" if "A \<in> set (ob # rest)" using that ne by auto
      with Cons.IH [OF reg1] same show ?thesis unfolding eq by auto
    next
      case (Some ro)
      let ?ev = "new_InteractEvent Pointerleave ob (getIntersection sc ob) e"
      let ?w2 = "snd (snd (fire beh ro ?ev ?w1))"
      have eq: "?w' = leaveLoop beh sc e H rest ?w2"
        using h Some by (rule leaveLoop_leave)
      obtain es1 where es1: "trace ?w2 = trace w @ Dispatched ro ?ev # es1" "calls_for ?ev es1"
        using fire_trace [of beh ro ?ev ?w1] by auto
      have no1: "events_for Pointerleave A es1 = []" using es1(2) by (rule events_for_calls)
      have reg2: "map_of (interactables (manager ?w2)) A = Some r"
        using reg1 by (rule fire_kept [OF kept_lookup nr])
      have h2: "hovered ?w2 A" if "hovered ?w1 A"
        using that by (rule fire_kept [OF kept_hovered nr])
      have nh2: "\<not> hovered ?w2 A" if "\<not> hovered ?w1 A"
        using that by (intro fire_kept [OF kept_not_hovered]) simp_all
      from Cons.IH [OF reg2] obtain es2 where es2:
        "trace (leaveLoop beh sc e H rest ?w2) = trace ?w2 @ es2"
        "map_of (interactables (manager (leaveLoop beh sc e H rest ?w2))) A = Some r"
        "hovered ?w2 A \<and> A \<notin> set H \<and> A \<in> set rest \<longrightarrow>
            events_for Pointerleave A es2
              = [(r, new_InteractEvent Pointerleave A (getIntersection sc A) e)]
          \<and> \<not> hovered (leaveLoop beh sc e H rest ?w2) A"
        "\<not> hovered ?w2 A \<longrightarrow>
            events_for Pointerleave A es2 = [] \<and> \<not> hovered (leaveLoop beh sc e H rest ?w2) A"
        "A \<in> set H \<longrightarrow>
            events_for Pointerleave A es2 = []
          \<and> hovered (leaveLoop beh sc e H rest ?w2) A = hovered ?w2 A"
        by blast
      have tr: "trace (leaveLoop beh sc e H rest ?w2) = trace w @ (Dispatched ro ?ev # es1) @ es2"
        using es1(1) es2(1) by simp
      show ?thesis
      proof (cases "ob = A")
        case True
        then have ro_r: "ro = r" using Some reg by simp
        have nhA2: "\<not> hovered ?w2 A" using True by (intro nh2) simp
        have ev: "events_for Pointerleave A ((Dispatched ro ?ev # es1) @ es2)
            = [(r, new_InteractEvent Pointerleave A (getIntersection sc A) e)]"
          using True ro_r no1 es2(4) nhA2 by simp
        show ?thesis
          unfolding eq using tr ev es2(2,4) nhA2 h True
          by (intro exI [of _ "(Dispatched ro ?ev # es1) @ es2"]) auto
      next
        case False
        have same1: "hovered ?w1 A = hovered w A" using False by auto
        have same2: "hovered ?w2 A = hovered w A"
          using h2 nh2 same1 by blast
        have ev: "events_for Pointerleave A ((Dispatched ro ?ev # es1) @ es2)
            = events_for Pointerleave A es2"
          using False no1 by simp
        have "A \<in> set rest" if "A \<in> set (ob # rest)" using that False by auto
        then show ?thesis
          unfolding eq using tr ev es2(2,3,4,5) same2
          by (intro exI [of _ "(Dispatched ro ?ev # es1) @ es2"]) auto
      qed
    qed
  qed
qed

text \<open>The whole of \<open>processRaycast\<close>, seen from such an object.\<close>

lemma processRaycast_account:
  assumes nr: "handlers_only beh (\<lambda>act. act \<noteq> Remove A)"
    and reg: "map_of (interactables (manager w)) A = Some r"
  shows "\<exists>es. trace (processRaycast beh sc e w) = trace w @ es
      \<and> map_of (interactables (manager (processRaycast beh sc e w))) A = Some r
      \<and> (hovered w A \<and> A \<in> object ` set (performRaycast sc w) \<longrightarrow>
            events_for Pointerenter A es = [] \<and> events_for Pointerleave A es = []
          \<and> hovered (processRaycast beh sc e w) A)
      \<and> (hovered w A \<and> A \<notin> object ` set (performRaycast sc w) \<longrightarrow>
            events_for Pointerenter A es = []
          \<and> events_for Pointerleave A es
              = [(r, new_InteractEvent Pointerleave A (getIntersection sc A) e)]
          \<and> \<not> hovered (processRaycast beh sc e w) A)
      \<and> (\<not> hovered w A \<and> A \<notin> object ` set (performRaycast sc w) \<longrightarrow>
            events_for Pointerenter A es = [] \<and> events_for Pointerleave A es = []
          \<and> \<not> hovered (processRaycast beh sc e w) A)
      \<and> (\<not> hovered w A \<and> A \<in> object ` set (performRaycast sc w) \<longrightarrow>
            events_for Pointerleave A es = []
          \<and> ((hovered (processRaycast beh sc e w) A
                \<and> (\<exists>i \<in> set (performRaycast sc w). object i = A
                      \<and> events_for Pointerenter A es
                          = [(r, mk_event Pointerenter e (0, 0) i)]))
             \<or> (\<not> hovered (processRaycast beh sc e w) A
                  \<and> events_for Pointerenter A es = [])))"
proof -
  let ?hits = "performRaycast sc w"
  let ?H = "map object ?hits"
  let ?w1 = "enterLoop beh e ?hits w"
  let ?S = "hoveredObjects (manager ?w1)"
  let ?w' = "leaveLoop beh sc e ?H ?S ?w1"
  have pr: "processRaycast beh sc e w = ?w'"
    by (simp add: processRaycast_def Let_def)
  obtain es1 where es1: "trace ?w1 = trace w @ es1"
    "map_of (interactables (manager ?w1)) A = Some r"
    "hovered w A \<longrightarrow> events_for Pointerenter A es1 = [] \<and> hovered ?w1 A"
    "\<not> hovered w A \<longrightarrow>
        (hovered ?w1 A
          \<and> (\<exists>i \<in> set ?hits. object i = A
                \<and> events_for Pointerenter A es1 = [(r, mk_event Pointerenter e (0, 0) i)]))
      \<or> (\<not> hovered ?w1 A \<and> events_for Pointerenter A es1 = [])"
    using enterLoop_account [OF nr reg, of e ?hits] by blast
  obtain es1' where "trace ?w1 = trace w @ es1'" "typed {Pointerenter} es1'"
    using enterLoop_typed by blast
  with es1(1) have ty1: "typed {Pointerenter} es1" by simp
  have l1: "events_for Pointerleave A es1 = []"
    using ty1 by (rule typed_events_for) simp
  obtain es2 where es2: "trace ?w' = trace ?w1 @ es2"
    "map_of (interactables (manager ?w')) A = Some r"
    "hovered ?w1 A \<and> A \<notin> set ?H \<and> A \<in> set ?S \<longrightarrow>
        events_for Pointerleave A es2
          = [(r, new_InteractEvent Pointerleave A (getIntersection sc A) e)]
      \<and> \<not> hovered ?w' A"
    "\<not> hovered ?w1 A \<longrightarrow> events_for Pointerleave A es2 = [] \<and> \<not> hovered ?w' A"
    "A \<in> set ?H \<longrightarrow> events_for Pointerleave A es2 = [] \<and> hovered ?w' A = hovered ?w1 A"
    using leaveLoop_account [OF nr es1(2), of sc e ?H ?S] by blast
  obtain es2' where "trace ?w' = trace ?w1 @ es2'" "typed {Pointerleave} es2'"
    using leaveLoop_typed by blast
  with es2(1) have ty2: "typed {Pointerleave} es2" by simp
  have e2: "events_for Pointerenter A es2 = []"
    using ty2 by (rule typed_events_for) simp
  have inS: "A \<in> set ?S" if "hovered ?w1 A" using that by (simp add: hovered_def)
  have H: "set ?H = object ` set ?hits" by simp
  have tr: "trace ?w' = trace w @ es1 @ es2" using es1(1) es2(1) by simp
  have en: "events_for Pointerenter A (es1 @ es2) = events_for Pointerenter A es1"
    using e2 by simp
  have le: "events_for Pointerleave A (es1 @ es2) = events_for Pointerleave A es2"
    using l1 by simp
  have c1: "events_for Pointerenter A es1 = [] \<and> events_for Pointerleave A es2 = []
      \<and> hovered ?w' A"
    if "hovered w A" "A \<in> object ` set ?hits"
    using that es1(3) es2(5) H by auto
  have c2: "events_for Pointerenter A es1 = []
      \<and> events_for Pointerleave A es2
          = [(r, new_InteractEvent Pointerleave A (getIntersection sc A) e)]
      \<and> \<not> hovered ?w' A"
    if "hovered w A" "A \<notin> object ` set ?hits"
    using that es1(3) es2(3) inS H by auto
  have c3: "events_for Pointerenter A es1 = [] \<and> events_for Pointerleave A es2 = []
      \<and> \<not> hovered ?w' A"
    if "\<not> hovered w A" "A \<notin> object ` set ?hits"
    using that es1(4) es2(4) by auto
  have c4: "events_for Pointerleave A es2 = []
      \<and> ((hovered ?w' A
            \<and> (\<exists>i \<in> set ?hits. object i = A
                  \<and> events_for Pointerenter A es1 = [(r, mk_event Pointerenter e (0, 0) i)]))
         \<or> (\<not> hovered ?w' A \<and> events_for Pointerenter A es1 = []))"
    if "\<not> hovered w A" "A \<in> object ` set ?hits"
    using that es1(4) es2(5) H by auto
  show ?thesis
    unfolding pr
    by (rule exI [of _ "es1 @ es2"]) (use tr en le es2(2) c1 c2 c3 c4 in simp)
qed

subsection \<open>A pointermove sample, seen from one object\<close>

lemma onPointerMove_before:
  "onPointerMove beh sc e w = processRaycast beh sc e (before_hover beh sc e w)"
  by (simp add: onPointerMove_eq before_hover_def Let_def)

lemma before_hover_kept:
  assumes "kept allowed P" and "handlers_only beh allowed"
    and "P (snd (updatePointer e w))"
  shows "P (before_hover beh sc e w)"
  unfolding before_hover_def Let_def moveLoop_hitLoop
  by (intro hitLoop_kept [OF assms(1,2)] dragStep_kept [OF assms(1,2)] assms(3))

lemma before_hover_typed:
  "\<exists>es. trace (before_hover beh sc e w) = trace w @ es \<and> typed {Drag, Pointermove} es"
proof -
  let ?d = "fst (updatePointer e w)"
  let ?w0 = "snd (updatePointer e w)"
  let ?w1 = "dragStep beh sc e ?d ?w0"
  have "\<exists>es. trace ?w1 = trace ?w0 @ es \<and> typed {Drag} es"
  proof (cases "dragObject (manager ?w0)")
    case None
    then show ?thesis by (simp add: dragStep_def)
  next
    case (Some ob)
    show ?thesis
    proof (cases "map_of (interactables (manager ?w0)) ob")
      case None
      with Some show ?thesis by (simp add: dragStep_def)
    next
      case r: (Some r)
      let ?ev = "(new_InteractEvent Drag ob (getIntersection sc ob) e)\<lparr>delta := ?d\<rparr>"
      have "etype ?ev = Drag" by (simp add: new_InteractEvent_def)
      with fire_typed [of beh r ?ev ?w0] Some r show ?thesis
        by (simp add: dragStep_def)
    qed
  qed
  then obtain es1 where es1: "trace ?w1 = trace w @ es1" "typed {Drag} es1" by auto
  obtain es2 where es2: "trace (before_hover beh sc e w) = trace ?w1 @ es2"
    "typed {Pointermove} es2"
    unfolding before_hover_def Let_def using moveLoop_typed by blast
  have "typed {Drag, Pointermove} es1" "typed {Drag, Pointermove} es2"
    using es1(2) es2(2) by (auto intro: typed_mono)
  with es1 es2 show ?thesis by auto
qed

lemma before_hover_object:
  assumes nr: "handlers_only beh (\<lambda>act. act \<noteq> Remove A)"
    and reg: "map_of (interactables (manager w)) A = Some r"
  shows "map_of (interactables (manager (before_hover beh sc e w))) A = Some r"
    and "hovered (before_hover beh sc e w) A = hovered w A"
proof -
  show "map_of (interactables (manager (before_hover beh sc e w))) A = Some r"
    by (rule before_hover_kept [OF kept_lookup nr]) (simp add: reg)
  have "hovered (before_hover beh sc e w) A" if "hovered w A"
    by (rule before_hover_kept [OF kept_hovered nr]) (simp add: that)
  moreover have "\<not> hovered (before_hover beh sc e w) A" if "\<not> hovered w A"
    by (rule before_hover_kept [OF kept_not_hovered]) (simp_all add: that)
  ultimately show "hovered (before_hover beh sc e w) A = hovered w A" by blast
qed

lemma pointermove_account:
  assumes nr: "handlers_only beh (\<lambda>act. act \<noteq> Remove A)"
    and reg: "map_of (interactables (manager w)) A = Some r"
  shows "\<exists>es. trace (onPointerMove beh sc e w) = trace w @ es
      \<and> map_of (interactables (manager (onPointerMove beh sc e w))) A = Some r
      \<and> (hovered w A \<and> A \<notin> object ` set (performRaycast sc (before_hover beh sc e w)) \<longrightarrow>
            events_for Pointerenter A es = []
          \<and> events_for Pointerleave A es
              = [(r, new_InteractEvent Pointerleave A (getIntersection sc A) e)]
          \<and> \<not> hovered (onPointerMove beh sc e w) A)
      \<and> (\<not> hovered w A \<and> A \<notin> object ` set (performRaycast sc (before_hover beh sc e w)) \<longrightarrow>
            events_for Pointerenter A es = [] \<and> events_for Pointerleave A es = []
          \<and> \<not> hovered (onPointerMove beh sc e w) A)
      \<and> (\<not> hovered w A \<and> A \<in> object ` set (performRaycast sc (before_hover beh sc e w)) \<longrightarrow>
            events_for Pointerleave A es = []
          \<and> ((hovered (onPointerMove beh sc e w) A
                \<and> (\<exists>i \<in> set (performRaycast sc (before_hover beh sc e w)). object i = A
                      \<and> events_for Pointerenter A es
                          = [(r, mk_event Pointerenter e (0, 0) i)]))
             \<or> (\<not> hovered (onPointerMove beh sc e w) A
                  \<and> events_for Pointerenter A es = [])))"
proof -
  let ?w2 = "before_hover beh sc e w"
  obtain es0 where es0: "trace ?w2 = trace w @ es0" "typed {Drag, Pointermove} es0"
    using before_hover_typed by blast
  have n0: "events_for Pointerenter A es0 = []" "events_for Pointerleave A es0 = []"
    using es0(2) by (auto intro: typed_events_for)
  have reg2: "map_of (interactables (manager ?w2)) A = Some r"
    and hov2: "hovered ?w2 A = hovered w A"
    using before_hover_object [OF nr reg] by simp_all
  from processRaycast_account [OF nr reg2, of sc e]
  obtain es where es: "trace (processRaycast beh sc e ?w2) = trace ?w2 @ es"
    "map_of (interactables (manager (processRaycast beh sc e ?w2))) A = Some r"
    "hovered ?w2 A \<and> A \<notin> object ` set (performRaycast sc ?w2) \<longrightarrow>
            events_for Pointerenter A es = []
          \<and> events_for Pointerleave A es
              = [(r, new_InteractEvent Pointerleave A (getIntersection sc A) e)]
          \<and> \<not> hovered (processRaycast beh sc e ?w2) A"
    "\<not> hovered ?w2 A \<and> A \<notin> object ` set (performRaycast sc ?w2) \<longrightarrow>
            events_for Pointerenter A es = [] \<and> events_for Pointerleave A es = []
          \<and> \<not> hovered (processRaycast beh sc e ?w2) A"
    "\<not> hovered ?w2 A \<and> A \<in> object ` set (performRaycast sc ?w2) \<longrightarrow>
            events_for Pointerleave A es = []
          \<and> ((hovered (processRaycast beh sc e ?w2) A
                \<and> (\<exists>i \<in> set (performRaycast sc ?w2). object i = A
                      \<and> events_for Pointerenter A es
                          = [(r, mk_event Pointerenter e (0, 0) i)]))
             \<or> (\<not> hovered (processRaycast beh sc e ?w2) A
                  \<and> events_for Pointerenter A es = []))"
    by blast
  have tr: "trace (processRaycast beh sc e ?w2) = trace w @ es0 @ es"
    using es0(1) es(1) by simp
  have ev: "events_for Pointerenter A (es0 @ es) = events_for Pointerenter A es"
    "events_for Pointerleave A (es0 @ es) = events_for Pointerleave A es"
    using n0 by simp_all
  show ?thesis
    unfolding onPointerMove_before
    by (rule exI [of _ "es0 @ es"]) (use tr ev es(2,3,4,5) hov2 in simp)
qed

lemma processRaycast_first_hit:
  assumes nr: "handlers_only beh (\<lambda>act. act \<noteq> Remove A)"
    and reg: "map_of (interactables (manager w)) A = Some r"
    and nh: "\<not> hovered w A"
    and hits: "performRaycast sc w = i # rest" and i: "object i = A"
  shows "hovered (processRaycast beh sc e w) A"
proof -
  let ?w2 = "snd (snd (fire beh r (mk_event Pointerenter e (0, 0) i) (hover A w)))"
  let ?w1 = "enterLoop beh e (i # rest) w"
  have h2: "hovered ?w2 A"
    by (rule fire_kept [OF kept_hovered nr]) simp
  have "hovered (enterLoop beh e rest ?w2) A"
    using h2 by (intro enterLoop_kept [OF kept_hovered nr]) simp_all
  with h2 have h1: "hovered ?w1 A"
    using reg nh i by (simp add: enterLoop_new [of w i r])
  have reg1: "map_of (interactables (manager ?w1)) A = Some r"
    using reg by (intro enterLoop_kept [OF kept_lookup nr]) simp_all
  have "A \<in> set (map object (i # rest))" using i by simp
  with leaveLoop_account [OF nr reg1, of sc e "map object (i # rest)"
      "hoveredObjects (manager ?w1)"] h1
  have "hovered (leaveLoop beh sc e (map object (i # rest)) (hoveredObjects (manager ?w1)) ?w1) A"
    by auto
  then show ?thesis
    using hits by (simp add: processRaycast_def Let_def)
qed

subsection \<open>Handlers that never stop the propagation\<close>

lemma exec_no_stop:
  "act \<noteq> StopPropagation \<Longrightarrow> stopped (fst (exec act (ev, w))) = stopped ev"
  by (cases act) simp_all

lemma fold_exec_no_stop:
  "\<forall>act \<in> set acts. act \<noteq> StopPropagation \<Longrightarrow>
   stopped (fst (fold exec acts s)) = stopped (fst s)"
proof (induction acts arbitrary: s)
  case Nil
  show ?case by simp
next
  case (Cons act acts)
  obtain ev w where s: "s = (ev, w)" by (cases s)
  have "stopped (fst (exec act s)) = stopped (fst s)"
    using Cons.prems by (simp add: s exec_no_stop)
  with Cons show ?case by simp
qed

lemma call_no_stop:
  "never_stops beh \<Longrightarrow> stopped (fst (call beh h ev w)) = stopped ev"
  by (simp add: call_def never_stops_def handlers_only_def fold_exec_no_stop)

lemma forEach_no_stop:
  "never_stops beh \<Longrightarrow> stopped (fst (forEach beh a k len ev w)) = stopped ev"
proof (induction beh a k len ev w rule: forEach.induct)
  case (1 beh a k len ev w)
  show ?case
  proof (cases "k < len")
    case False
    then show ?thesis by (simp add: forEach.simps)
  next
    case klen: True
    show ?thesis
    proof (cases "k < length (arrays w ! a)")
      case False
      with klen "1.IH"(2) "1.prems" show ?thesis by (simp add: forEach.simps [of beh a k])
    next
      case True
      obtain ev' w' where c: "call beh (arrays w ! a ! k) ev w = (ev', w')"
        by (cases "call beh (arrays w ! a ! k) ev w")
      have "stopped ev' = stopped ev"
        using call_no_stop [OF "1.prems", of "arrays w ! a ! k" ev w] c by simp
      with "1.IH"(1) [OF klen True c [symmetric] "1.prems"] klen True c
      show ?thesis by (simp add: forEach.simps [of beh a k])
    qed
  qed
qed

lemma dispatchEvent_no_stop:
  assumes "never_stops beh"
  shows "stopped (fst (snd (dispatchEvent beh r ev w))) = stopped ev"
proof (cases "eventHandlers (wrappers w ! r) (etype ev)")
  case None
  then show ?thesis by (simp add: dispatchEvent_def)
next
  case (Some a)
  have "snd (dispatchEvent beh r ev w) = forEach beh a 0 (length (arrays w ! a)) ev w"
    using Some by (simp add: dispatchEvent_def case_prod_beta)
  then show ?thesis by (simp add: forEach_no_stop [OF assms])
qed

lemma fire_no_stop:
  "never_stops beh \<Longrightarrow> stopped (fst (snd (fire beh r ev w))) = stopped ev"
  by (simp add: fire_def dispatchEvent_no_stop)

subsection \<open>Which objects the first loop of processRaycast reaches\<close>

lemma enterLoop_skip_prefix:
  assumes "\<forall>k \<in> set pre. map_of (interactables (manager w)) (object k) = None
                           \<or> hovered w (object k)"
  shows "enterLoop beh e (pre @ rest) w = enterLoop beh e rest w"
  using assms by (induction pre) (simp_all add: enterLoop_skip)

lemma enterLoop_reaches_all:
  assumes ns: "never_stops beh" and nr: "handlers_only beh (\<lambda>act. act \<noteq> Remove F)"
  shows "map_of (interactables (manager w)) F = Some r \<Longrightarrow> F \<in> object ` set hits \<Longrightarrow>
         hovered (enterLoop beh e hits w) F"
proof (induction hits arbitrary: w)
  case Nil
  then show ?case by simp
next
  case (Cons i rest)
  note reg = Cons.prems(1)
  have stay: "hovered (enterLoop beh e rest v) F" if "hovered v F" for v
    using that by (intro enterLoop_kept [OF kept_hovered nr]) simp_all
  show ?case
  proof (cases "map_of (interactables (manager w)) (object i) = None \<or> hovered w (object i)")
    case True
    then have eq: "enterLoop beh e (i # rest) w = enterLoop beh e rest w"
      by (rule enterLoop_skip)
    show ?thesis
    proof (cases "object i = F")
      case True
      with \<open>map_of (interactables (manager w)) (object i) = None \<or> hovered w (object i)\<close> reg
      have "hovered w F" by auto
      then show ?thesis unfolding eq by (rule stay)
    next
      case False
      with Cons.prems(2) have "F \<in> object ` set rest" by auto
      with Cons.IH [OF reg] show ?thesis unfolding eq by simp
    qed
  next
    case False
    then obtain ri where ri: "map_of (interactables (manager w)) (object i) = Some ri"
      and nh: "\<not> hovered w (object i)" by auto
    let ?ev = "mk_event Pointerenter e (0, 0) i"
    let ?w2 = "snd (snd (fire beh ri ?ev (hover (object i) w)))"
    have "\<not> stopped ?ev" by (simp add: mk_event_def new_InteractEvent_def)
    then have "\<not> stopped (fst (snd (fire beh ri ?ev (hover (object i) w))))"
      by (simp add: fire_no_stop [OF ns])
    then have eq: "enterLoop beh e (i # rest) w = enterLoop beh e rest ?w2"
      by (simp add: enterLoop_new [OF ri nh])
    have reg2: "map_of (interactables (manager ?w2)) F = Some r"
      by (rule fire_kept [OF kept_lookup nr]) (simp add: reg)
    show ?thesis
    proof (cases "object i = F")
      case True
      have "hovered ?w2 F"
        by (rule fire_kept [OF kept_hovered nr]) (simp add: True)
      then show ?thesis unfolding eq by (rule stay)
    next
      case False
      with Cons.prems(2) have "F \<in> object ` set rest" by auto
      with Cons.IH [OF reg2] show ?thesis unfolding eq by simp
    qed
  qed
qed

lemma fire_returns_true:
  assumes "eventHandlers (wrappers w ! r) (etype ev) = Some a" and "a < length (arrays w)"
    and "arrays w ! a = h # hs" and "no_splice beh (h # hs)"
  shows "fst (fire beh r ev w)"
proof -
  let ?w1 = "w\<lparr>trace := trace w @ [Dispatched r ev]\<rparr>"
  have "dispatchEvent beh r ev ?w1
      = (arrays ?w1 ! a \<noteq> [], call_all beh (arrays ?w1 ! a) (ev, ?w1))"
    using assms by (intro dispatchEvent_no_splice) simp_all
  with assms(3) show ?thesis by (simp add: fire_def)
qed

lemma processRaycast_reaches:
  assumes ns: "never_stops beh" and nr: "handlers_only beh (\<lambda>act. act \<noteq> Remove F)"
    and reg: "map_of (interactables (manager w)) F = Some r"
    and hit: "F \<in> object ` set (performRaycast sc w)"
  shows "hovered (processRaycast beh sc e w) F"
proof -
  let ?hits = "performRaycast sc w"
  let ?w1 = "enterLoop beh e ?hits w"
  have h1: "hovered ?w1 F" using reg hit by (rule enterLoop_reaches_all [OF ns nr])
  have reg1: "map_of (interactables (manager ?w1)) F = Some r"
    using reg by (intro enterLoop_kept [OF kept_lookup nr]) simp_all
  have "F \<in> set (map object ?hits)" using hit by simp
  with leaveLoop_account [OF nr reg1, of sc e "map object ?hits" "hoveredObjects (manager ?w1)"] h1
  have "hovered (leaveLoop beh sc e (map object ?hits) (hoveredObjects (manager ?w1)) ?w1) F"
    by auto
  then show ?thesis by (simp add: processRaycast_def Let_def)
qed

subsection \<open>The registered wrappers are in the store\<close>

lemma refs_ok_add: "refs_ok w \<Longrightarrow> refs_ok (snd (add ob w))"
  by (cases "map_of (interactables (manager w)) ob")
    (auto simp: refs_ok_def add_fresh add_registered less_Suc_eq)

lemma refs_ok_remove: "refs_ok w \<Longrightarrow> refs_ok (remove_object ob w)"
  by (auto simp: refs_ok_def remove_object_def)

lemma length_wrappers_registry [simp]:
  "length (wrappers (on r ty h w)) = length (wrappers w)"
  "length (wrappers (off r ty ho w)) = length (wrappers w)"
  "length (wrappers (removeAll_handlers r w)) = length (wrappers w)"
  by (simp_all add: on_def off_def removeAll_handlers_def set_handlers_def Let_def
      split: option.splits)

lemma kept_refs_ok: "kept (\<lambda>act. True) refs_ok"
  unfolding kept_def
proof (intro conjI allI impI)
  fix act ev and w :: world
  assume "refs_ok w"
  then show "refs_ok (snd (exec act (ev, w)))"
    by (cases act) (simp_all add: refs_ok_add refs_ok_remove, simp_all add: refs_ok_def)
qed (simp add: refs_ok_def)

subsection \<open>Where the first loop of processRaycast ends\<close>

lemma enter_broke_skip:
  assumes "map_of (interactables (manager w)) (object i) = None \<or> hovered w (object i)"
  shows "enter_broke beh e (i # rest) w = enter_broke beh e rest w"
  using assms by (auto simp: hovered_def split: option.splits)

lemma enter_broke_new:
  assumes "map_of (interactables (manager w)) (object i) = Some r" and "\<not> hovered w (object i)"
  shows "enter_broke beh e (i # rest) w =
     (fst (fire beh r (mk_event Pointerenter e (0, 0) i) (hover (object i) w))
         \<and> stopped (fst (snd (fire beh r (mk_event Pointerenter e (0, 0) i) (hover (object i) w))))
      \<or> enter_broke beh e rest
             (snd (snd (fire beh r (mk_event Pointerenter e (0, 0) i) (hover (object i) w)))))"
  using assms
  by (cases "fire beh r (new_InteractEvent Pointerenter (object i) i e) (hover (object i) w)")
    (auto simp: hovered_def hover_def Let_def mk_event_zero)

declare enter_broke.simps(2) [simp del]

lemma enterLoop_append:
  "\<not> enter_broke beh e pre w \<Longrightarrow>
     enterLoop beh e (pre @ xs) w = enterLoop beh e xs (enterLoop beh e pre w)"
proof (induction pre arbitrary: w)
  case Nil
  show ?case by simp
next
  case (Cons i rest)
  show ?case
  proof (cases "map_of (interactables (manager w)) (object i) = None \<or> hovered w (object i)")
    case True
    with Cons show ?thesis by (simp add: enterLoop_skip enter_broke_skip)
  next
    case False
    then obtain r where r: "map_of (interactables (manager w)) (object i) = Some r"
      and nh: "\<not> hovered w (object i)" by auto
    from Cons.prems Cons.IH show ?thesis
      by (auto simp: enterLoop_new [OF r nh] enter_broke_new [OF r nh])
  qed
qed

lemma enterLoop_broke:
  "enter_broke beh e pre w \<Longrightarrow> enterLoop beh e (pre @ xs) w = enterLoop beh e pre w"
proof (induction pre arbitrary: w)
  case Nil
  then show ?case by simp
next
  case (Cons i rest)
  show ?case
  proof (cases "map_of (interactables (manager w)) (object i) = None \<or> hovered w (object i)")
    case True
    with Cons show ?thesis by (simp add: enterLoop_skip enter_broke_skip)
  next
    case False
    then obtain r where r: "map_of (interactables (manager w)) (object i) = Some r"
      and nh: "\<not> hovered w (object i)" by auto
    from Cons.prems Cons.IH show ?thesis
      by (auto simp: enterLoop_new [OF r nh] enter_broke_new [OF r nh])
  qed
qed

lemma enter_broke_append:
  "enter_broke beh e (pre @ xs) w
     = (enter_broke beh e pre w \<or> enter_broke beh e xs (enterLoop beh e pre w))"
proof (induction pre arbitrary: w)
  case Nil
  show ?case by simp
next
  case (Cons i rest)
  show ?case
  proof (cases "map_of (interactables (manager w)) (object i) = None \<or> hovered w (object i)")
    case True
    with Cons show ?thesis by (simp add: enterLoop_skip enter_broke_skip)
  next
    case False
    then obtain r where r: "map_of (interactables (manager w)) (object i) = Some r"
      and nh: "\<not> hovered w (object i)" by auto
    from Cons.IH show ?thesis
      by (auto simp: enterLoop_new [OF r nh] enter_broke_new [OF r nh])
  qed
qed

lemma enter_broke_skip_prefix:
  assumes "\<forall>k \<in> set pre. map_of (interactables (manager w)) (object k) = None
                           \<or> hovered w (object k)"
  shows "\<not> enter_broke beh e pre w"
  using assms by (induction pre) (simp_all add: enter_broke_skip)

lemma enter_broke_never_stops:
  assumes ns: "never_stops beh"
  shows "\<not> enter_broke beh e hits w"
proof (induction hits arbitrary: w)
  case Nil
  show ?case by simp
next
  case (Cons i rest)
  show ?case
  proof (cases "map_of (interactables (manager w)) (object i) = None \<or> hovered w (object i)")
    case True
    with Cons show ?thesis by (simp add: enter_broke_skip)
  next
    case False
    then obtain r where r: "map_of (interactables (manager w)) (object i) = Some r"
      and nh: "\<not> hovered w (object i)" by auto
    let ?ev = "mk_event Pointerenter e (0, 0) i"
    have "\<not> stopped ?ev" by (simp add: mk_event_def new_InteractEvent_def)
    then have "\<not> stopped (fst (snd (fire beh r ?ev (hover (object i) w))))"
      by (simp add: fire_no_stop [OF ns])
    with Cons show ?thesis by (simp add: enter_broke_new [OF r nh])
  qed
qed

lemma enterLoop_not_hovered:
  "\<not> hovered w F \<Longrightarrow> F \<notin> object ` set hits \<Longrightarrow> \<not> hovered (enterLoop beh e hits w) F"
proof (induction hits arbitrary: w)
  case Nil
  then show ?case by simp
next
  case (Cons i rest)
  from Cons.prems(2) have ne: "F \<noteq> object i" and nin: "F \<notin> object ` set rest" by auto
  show ?case
  proof (cases "map_of (interactables (manager w)) (object i) = None \<or> hovered w (object i)")
    case True
    with Cons.IH [OF Cons.prems(1) nin] show ?thesis by (simp add: enterLoop_skip)
  next
    case False
    then obtain r where r: "map_of (interactables (manager w)) (object i) = Some r"
      and nh: "\<not> hovered w (object i)" by auto
    let ?w2 = "snd (snd (fire beh r (mk_event Pointerenter e (0, 0) i) (hover (object i) w)))"
    have "\<not> hovered ?w2 F"
      using Cons.prems(1) ne by (intro fire_kept [OF kept_not_hovered]) simp_all
    with Cons.IH [OF _ nin] show ?thesis by (simp add: enterLoop_new [OF r nh])
  qed
qed

lemma enterLoop_targets:
  "\<exists>es. trace (enterLoop beh e hits w) = trace w @ es
        \<and> (\<forall>F. F \<notin> object ` set hits \<longrightarrow> events_for Pointerenter F es = [])"
proof (induction hits arbitrary: w)
  case Nil
  show ?case by simp
next
  case (Cons i rest)
  show ?case
  proof (cases "map_of (interactables (manager w)) (object i) = None \<or> hovered w (object i)")
    case True
    with Cons [of w] show ?thesis by (auto simp: enterLoop_skip)
  next
    case False
    then obtain r where r: "map_of (interactables (manager w)) (object i) = Some r"
      and nh: "\<not> hovered w (object i)" by auto
    let ?ev = "mk_event Pointerenter e (0, 0) i"
    let ?w2 = "snd (snd (fire beh r ?ev (hover (object i) w)))"
    obtain es1 where es1: "trace ?w2 = trace w @ Dispatched r ?ev # es1" "calls_for ?ev es1"
      using fire_trace [of beh r ?ev "hover (object i) w"] by auto
    have c: "events_for Pointerenter F es1 = []" for F
      using es1(2) by (rule events_for_calls)
    obtain es2 where es2: "trace (enterLoop beh e rest ?w2) = trace ?w2 @ es2"
      "\<forall>F. F \<notin> object ` set rest \<longrightarrow> events_for Pointerenter F es2 = []"
      using Cons [of ?w2] by blast
    show ?thesis
    proof (cases "fst (fire beh r ?ev (hover (object i) w))
         \<and> stopped (fst (snd (fire beh r ?ev (hover (object i) w))))")
      case True
      then have "enterLoop beh e (i # rest) w = ?w2" by (simp add: enterLoop_new [OF r nh])
      with es1 c show ?thesis by (intro exI [of _ "Dispatched r ?ev # es1"]) auto
    next
      case False
      then have "enterLoop beh e (i # rest) w = enterLoop beh e rest ?w2"
        by (auto simp: enterLoop_new [OF r nh])
      with es1 es2 c show ?thesis
        by (intro exI [of _ "(Dispatched r ?ev # es1) @ es2"]) auto
    qed
  qed
qed

lemma enterLoop_first:
  assumes r: "map_of (interactables (manager w)) (object j) = Some r"
    and nh: "\<not> hovered w (object j)"
  shows "\<exists>es. trace (enterLoop beh e (j # post) w)
            = trace w @ Dispatched r (mk_event Pointerenter e (0, 0) j) # es"
proof -
  let ?ev = "mk_event Pointerenter e (0, 0) j"
  let ?w2 = "snd (snd (fire beh r ?ev (hover (object j) w)))"
  obtain es1 where es1: "trace ?w2 = trace w @ Dispatched r ?ev # es1"
    using fire_trace [of beh r ?ev "hover (object j) w"] by auto
  have "enterLoop beh e (j # post) w = ?w2
      \<or> enterLoop beh e (j # post) w = enterLoop beh e post ?w2"
    by (simp add: enterLoop_new [OF r nh])
  moreover obtain es2 where "trace (enterLoop beh e post ?w2) = trace ?w2 @ es2"
    using enterLoop_typed by blast
  ultimately show ?thesis using es1 by auto
qed

subsection \<open>A run of processRaycast, up to the hit the first loop has reached\<close>

lemma member_events_for:
  "etype ev = ty \<Longrightarrow> target ev = ob \<Longrightarrow>
   (r, ev) \<in> set (events_for ty ob (xs @ Dispatched r ev # ys))"
  by simp

lemma processRaycast_split:
  "\<exists>es. trace (processRaycast beh sc e w)
          = trace (enterLoop beh e (performRaycast sc w) w) @ es \<and> typed {Pointerleave} es"
  unfolding processRaycast_def Let_def using leaveLoop_typed by blast

lemma processRaycast_reached:
  assumes hits: "performRaycast sc w = pre @ j # post"
    and nb: "\<not> enter_broke beh e pre w"
    and reg: "map_of (interactables (manager (enterLoop beh e pre w))) (object j) = Some r"
    and nh: "\<not> hovered (enterLoop beh e pre w) (object j)"
  shows "\<exists>es0 es. since w (processRaycast beh sc e w)
            = es0 @ Dispatched r (mk_event Pointerenter e (0, 0) j) # es"
proof -
  let ?w1 = "enterLoop beh e pre w"
  obtain es0 where es0: "trace ?w1 = trace w @ es0" using enterLoop_typed by blast
  obtain es1 where es1: "trace (enterLoop beh e (j # post) ?w1)
      = trace ?w1 @ Dispatched r (mk_event Pointerenter e (0, 0) j) # es1"
    using enterLoop_first [OF reg nh] by blast
  have "enterLoop beh e (performRaycast sc w) w = enterLoop beh e (j # post) ?w1"
    unfolding hits using nb by (rule enterLoop_append)
  moreover obtain es2 where "trace (processRaycast beh sc e w)
      = trace (enterLoop beh e (performRaycast sc w) w) @ es2"
    using processRaycast_split by blast
  ultimately have "trace (processRaycast beh sc e w)
      = trace w @ es0 @ Dispatched r (mk_event Pointerenter e (0, 0) j) # es1 @ es2"
    using es0 es1 by simp
  then have "since w (processRaycast beh sc e w)
      = es0 @ Dispatched r (mk_event Pointerenter e (0, 0) j) # es1 @ es2"
    by (rule since_append)
  then show ?thesis by blast
qed

lemma processRaycast_hidden:
  assumes hits: "performRaycast sc w = pre @ i # rest"
    and nb: "\<not> enter_broke beh e pre w"
    and reg: "map_of (interactables (manager (enterLoop beh e pre w))) (object i) = Some r"
    and nh: "\<not> hovered (enterLoop beh e pre w) (object i)"
    and st: "fst (fire beh r (mk_event Pointerenter e (0, 0) i)
                 (hover (object i) (enterLoop beh e pre w)))"
      "stopped (fst (snd (fire beh r (mk_event Pointerenter e (0, 0) i)
                 (hover (object i) (enterLoop beh e pre w)))))"
    and F: "F \<noteq> object i" "F \<notin> object ` set pre" "\<not> hovered w F"
  shows "events_for Pointerenter F (since w (processRaycast beh sc e w)) = []"
    and "\<not> hovered (processRaycast beh sc e w) F"
proof -
  let ?w1 = "enterLoop beh e pre w"
  let ?ev = "mk_event Pointerenter e (0, 0) i"
  let ?w2 = "snd (snd (fire beh r ?ev (hover (object i) ?w1)))"
  let ?H = "map object (performRaycast sc w)"
  let ?w' = "leaveLoop beh sc e ?H (hoveredObjects (manager ?w2)) ?w2"
  have "enterLoop beh e (performRaycast sc w) w = enterLoop beh e (i # rest) ?w1"
    unfolding hits using nb by (rule enterLoop_append)
  also have "\<dots> = ?w2" using st by (simp add: enterLoop_new [OF reg nh])
  finally have en: "enterLoop beh e (performRaycast sc w) w = ?w2" .
  have pr: "processRaycast beh sc e w = ?w'"
    by (simp add: processRaycast_def Let_def en)
  obtain es0 where es0: "trace ?w1 = trace w @ es0"
    "\<forall>F. F \<notin> object ` set pre \<longrightarrow> events_for Pointerenter F es0 = []"
    using enterLoop_targets by blast
  obtain es1 where es1: "trace ?w2 = trace ?w1 @ Dispatched r ?ev # es1" "calls_for ?ev es1"
    using fire_trace [of beh r ?ev "hover (object i) ?w1"] by auto
  obtain es2 where es2: "trace ?w' = trace ?w2 @ es2" "typed {Pointerleave} es2"
    using leaveLoop_typed by blast
  have "events_for Pointerenter F es2 = []"
    using es2(2) by (rule typed_events_for) simp
  moreover have "events_for Pointerenter F es1 = []"
    using es1(2) by (rule events_for_calls)
  moreover have "events_for Pointerenter F es0 = []" using es0(2) F(2) by simp
  ultimately have ev: "events_for Pointerenter F (es0 @ (Dispatched r ?ev # es1) @ es2) = []"
    using F(1) by simp
  have tr: "trace ?w' = trace w @ es0 @ (Dispatched r ?ev # es1) @ es2"
    using es0(1) es1(1) es2(1) by simp
  have "\<not> hovered ?w1 F" using F(3,2) by (rule enterLoop_not_hovered)
  then have "\<not> hovered ?w2 F"
    using F(1) by (intro fire_kept [OF kept_not_hovered]) simp_all
  then have nh': "\<not> hovered ?w' F"
    by (intro leaveLoop_kept [OF kept_not_hovered]) simp_all
  from tr have "since w ?w' = es0 @ (Dispatched r ?ev # es1) @ es2" by (rule since_append)
  with ev show "events_for Pointerenter F (since w (processRaycast beh sc e w)) = []"
    unfolding pr by simp
  from nh' show "\<not> hovered (processRaycast beh sc e w) F" unfolding pr by simp
qed

lemma processRaycast_decided:
  assumes nr: "handlers_only beh (\<lambda>act. act \<noteq> Remove A)"
    and reg: "map_of (interactables (manager w)) A = Some r"
    and nh: "\<not> hovered w A"
    and hits: "performRaycast sc w = pre @ j # post"
    and j: "object j = A" and pre: "A \<notin> object ` set pre"
  shows "events_for Pointerleave A (since w (processRaycast beh sc e w)) = []"
    and "\<not> enter_broke beh e pre w \<Longrightarrow>
           hovered (processRaycast beh sc e w) A
         \<and> events_for Pointerenter A (since w (processRaycast beh sc e w))
             = [(r, mk_event Pointerenter e (0, 0) j)]"
    and "enter_broke beh e pre w \<Longrightarrow>
           \<not> hovered (processRaycast beh sc e w) A
         \<and> events_for Pointerenter A (since w (processRaycast beh sc e w)) = []"
proof -
  let ?w' = "processRaycast beh sc e w"
  have hit: "A \<in> object ` set (performRaycast sc w)" using hits j by force
  from processRaycast_account [OF nr reg, of sc e]
  obtain es where es: "trace ?w' = trace w @ es"
    "\<not> hovered w A \<and> A \<in> object ` set (performRaycast sc w) \<longrightarrow>
        events_for Pointerleave A es = []
      \<and> ((hovered ?w' A
            \<and> (\<exists>i \<in> set (performRaycast sc w). object i = A
                  \<and> events_for Pointerenter A es = [(r, mk_event Pointerenter e (0, 0) i)]))
         \<or> (\<not> hovered ?w' A \<and> events_for Pointerenter A es = []))"
    by blast
  have s: "since w ?w' = es" using es(1) by simp
  from es(2) nh hit have out: "events_for Pointerleave A es = []"
    and alt: "(hovered ?w' A
            \<and> (\<exists>i \<in> set (performRaycast sc w). object i = A
                  \<and> events_for Pointerenter A es = [(r, mk_event Pointerenter e (0, 0) i)]))
         \<or> (\<not> hovered ?w' A \<and> events_for Pointerenter A es = [])"
    by blast+
  show "events_for Pointerleave A (since w ?w') = []" using out s by simp
  let ?w1 = "enterLoop beh e pre w"
  {
    assume nb: "\<not> enter_broke beh e pre w"
    have reg1: "map_of (interactables (manager ?w1)) (object j) = Some r"
      unfolding j using reg by (intro enterLoop_kept [OF kept_lookup nr]) simp_all
    have nh1: "\<not> hovered ?w1 (object j)"
      unfolding j using nh pre by (rule enterLoop_not_hovered)
    from processRaycast_reached [OF hits nb reg1 nh1]
    obtain es0 es1 where "since w ?w' = es0 @ Dispatched r (mk_event Pointerenter e (0, 0) j) # es1"
      by blast
    then have "es = es0 @ Dispatched r (mk_event Pointerenter e (0, 0) j) # es1"
      using s by simp
    then have m: "(r, mk_event Pointerenter e (0, 0) j) \<in> set (events_for Pointerenter A es)"
      using j by simp
    with alt have "hovered ?w' A
        \<and> events_for Pointerenter A es = [(r, mk_event Pointerenter e (0, 0) j)]"
      by auto
    then show "hovered ?w' A
         \<and> events_for Pointerenter A (since w ?w') = [(r, mk_event Pointerenter e (0, 0) j)]"
      using s by simp
  }
  {
    assume b: "enter_broke beh e pre w"
    have "enterLoop beh e (performRaycast sc w) w = ?w1"
      unfolding hits using b by (rule enterLoop_broke)
    moreover obtain es0 where es0: "trace ?w1 = trace w @ es0"
      "\<forall>F. F \<notin> object ` set pre \<longrightarrow> events_for Pointerenter F es0 = []"
      using enterLoop_targets by blast
    moreover obtain es2 where es2: "trace ?w'
        = trace (enterLoop beh e (performRaycast sc w) w) @ es2" "typed {Pointerleave} es2"
      using processRaycast_split by blast
    ultimately have "trace ?w' = trace w @ es0 @ es2" by simp
    then have "es = es0 @ es2" using es(1) by simp
    moreover have "events_for Pointerenter A es2 = []"
      using es2(2) by (rule typed_events_for) simp
    ultimately have "events_for Pointerenter A es = []" using es0(2) pre by simp
    with alt have "\<not> hovered ?w' A \<and> events_for Pointerenter A es = []" by auto
    then show "\<not> hovered ?w' A \<and> events_for Pointerenter A (since w ?w') = []"
      using s by simp
  }
qed
section \<open>The claims about the registry\<close>

text \<open>
  Claim C3, as the code has it.  \<open>dispatchEvent\<close> runs \<open>forEach\<close> on the handler
  array itself, not on a copy.  The number of calls never exceeds the length the
  array had when the dispatch started.  If no handler of the sequence calls
  \<open>off(type, handler)\<close> with a handler while the dispatch runs, then every handler that
  was in the sequence at the start is called exactly once, in registration order,
  whatever else the handlers do (\<open>off(type)\<close> without a handler, \<open>removeAll()\<close>,
  \<open>on(...)\<close>, \<open>add\<close>, \<open>remove\<close>).
\<close>

theorem dispatch_iterates_live_array:
  assumes "eventHandlers (wrappers w ! r) (etype ev) = Some a" and "a < length (arrays w)"
  shows "length (invocations (since w (snd (snd (dispatchEvent beh r ev w)))))
           \<le> length (arrays w ! a)
         \<and> (no_splice beh (arrays w ! a) \<longrightarrow>
              map fst (invocations (since w (snd (snd (dispatchEvent beh r ev w)))))
                = arrays w ! a)"
proof (intro conjI impI)
  obtain ev' w' where f: "forEach beh a 0 (length (arrays w ! a)) ev w = (ev', w')"
    by (cases "forEach beh a 0 (length (arrays w ! a)) ev w")
  have "length (invocations (since w (snd (forEach beh a 0 (length (arrays w ! a)) ev w))))
          \<le> length (arrays w ! a) - 0"
    by (rule forEach_count)
  then show "length (invocations (since w (snd (snd (dispatchEvent beh r ev w)))))
           \<le> length (arrays w ! a)"
    using assms(1) f by (simp add: dispatchEvent_def)
next
  assume ns: "no_splice beh (arrays w ! a)"
  obtain es where es: "trace (snd (call_all beh (arrays w ! a) (ev, w))) = trace w @ es"
    "map fst (invocations es) = arrays w ! a"
    using call_all_invocations [of beh "arrays w ! a" "(ev, w)"] by auto
  have "snd (snd (dispatchEvent beh r ev w)) = snd (call_all beh (arrays w ! a) (ev, w))"
    by (simp add: dispatchEvent_no_splice [OF assms ns])
  with es show "map fst (invocations (since w (snd (snd (dispatchEvent beh r ev w)))))
                = arrays w ! a"
    by simp
qed

theorem dispatch_iterates_live_array_witness:
  "eventHandlers (wrappers (one_registry [10, 11]) ! 0) (etype click7) = Some 0
   \<and> no_splice dropping [10, 11]
   \<and> map fst (invocations (since (one_registry [10, 11])
        (snd (snd (dispatchEvent dropping 0 click7 (one_registry [10, 11])))))) = [10, 11]"
proof -
  have e: "eventHandlers (wrappers (one_registry [10, 11]) ! 0) (etype click7) = Some 0"
    by (simp add: one_registry_def click7_def new_InteractEvent_def)
  have l: "0 < length (arrays (one_registry [10, 11]))"
    by (simp add: one_registry_def)
  have a: "arrays (one_registry [10, 11]) ! 0 = [10, 11]"
    by (simp add: one_registry_def)
  have n: "no_splice dropping [10, 11]"
    by (simp add: no_splice_def dropping_def)
  from dispatch_iterates_live_array [OF e l, of dropping] a n e show ?thesis
    by simp
qed

theorem handler_removing_itself_skips_next:
  "arrays (one_registry [10, 11]) ! 0 = [10, 11]
   \<and> map fst (invocations (since (one_registry [10, 11])
        (snd (snd (dispatchEvent once 0 click7 (one_registry [10, 11])))))) = [10]"
  by (simp add: one_registry_def click7_def new_InteractEvent_def once_def dispatchEvent_def
      forEach.simps call_def off_def set_handlers_def splice1_def since_def invocations_def)

text \<open>
  Claim C6, as the code has it.  If the event's type has no entry, \<open>dispatchEvent\<close>
  returns false and leaves the event and the state as they were: no handler is called.
  If it has an entry and no handler of its sequence calls \<open>off(type, handler)\<close> with a
  handler during the dispatch, every handler of the sequence is called in registration
  order, each with the one event object as the handlers before it left it, and the
  result is true for a sequence that is not empty.
\<close>

theorem dispatchEvent_result:
  "(eventHandlers (wrappers w ! r) (etype ev) = None \<longrightarrow>
      dispatchEvent beh r ev w = (False, ev, w))
   \<and> (eventHandlers (wrappers w ! r) (etype ev) = Some a \<and> a < length (arrays w)
       \<and> arrays w ! a \<noteq> [] \<and> no_splice beh (arrays w ! a) \<longrightarrow>
      dispatchEvent beh r ev w = (True, call_all beh (arrays w ! a) (ev, w)))"
proof (intro conjI impI)
  assume "eventHandlers (wrappers w ! r) (etype ev) = None"
  then show "dispatchEvent beh r ev w = (False, ev, w)"
    by (simp add: dispatchEvent_def)
next
  assume h: "eventHandlers (wrappers w ! r) (etype ev) = Some a \<and> a < length (arrays w)
       \<and> arrays w ! a \<noteq> [] \<and> no_splice beh (arrays w ! a)"
  then have "dispatchEvent beh r ev w
      = (arrays w ! a \<noteq> [], call_all beh (arrays w ! a) (ev, w))"
    by (intro dispatchEvent_no_splice) simp_all
  with h show "dispatchEvent beh r ev w = (True, call_all beh (arrays w ! a) (ev, w))"
    by simp
qed

theorem dispatchEvent_result_witness:
  "eventHandlers (wrappers (one_registry [10, 11]) ! 0) (etype click7) = Some 0
   \<and> no_splice dropping [10, 11]
   \<and> dispatchEvent dropping 0 click7 (one_registry [10, 11])
       = (True, call_all dropping [10, 11] (click7, one_registry [10, 11]))
   \<and> eventHandlers (wrappers (one_registry [10, 11]) ! 0) Drag = None
   \<and> dispatchEvent dropping 0 (click7\<lparr>etype := Drag\<rparr>) (one_registry [10, 11])
       = (False, click7\<lparr>etype := Drag\<rparr>, one_registry [10, 11])"
proof -
  have e: "eventHandlers (wrappers (one_registry [10, 11]) ! 0) (etype click7) = Some 0"
    by (simp add: one_registry_def click7_def new_InteractEvent_def)
  have d: "eventHandlers (wrappers (one_registry [10, 11]) ! 0)
             (etype (click7\<lparr>etype := Drag\<rparr>)) = None"
    by (simp add: one_registry_def)
  have a: "arrays (one_registry [10, 11]) ! 0 = [10, 11]"
    "0 < length (arrays (one_registry [10, 11]))"
    by (simp_all add: one_registry_def)
  have n: "no_splice dropping [10, 11]"
    by (simp add: no_splice_def dropping_def)
  from dispatchEvent_result [of "one_registry [10, 11]" 0 click7 dropping 0]
    dispatchEvent_result [of "one_registry [10, 11]" 0 "click7\<lparr>etype := Drag\<rparr>" dropping 0]
    e d a n
  show ?thesis by simp
qed

theorem dispatch_false_after_call:
  "eventHandlers (wrappers (one_registry [10]) ! 0) (etype click7) = Some 0
   \<and> arrays (one_registry [10]) ! 0 = [10]
   \<and> map fst (invocations (since (one_registry [10])
        (snd (snd (dispatchEvent once 0 click7 (one_registry [10])))))) = [10]
   \<and> fst (dispatchEvent once 0 click7 (one_registry [10])) = False"
  by (simp add: one_registry_def click7_def new_InteractEvent_def once_def dispatchEvent_def
      forEach.simps call_def off_def set_handlers_def splice1_def since_def invocations_def)




section \<open>The claims about the coordinator\<close>

text \<open>
  Claim C8.  \<open>add\<close> on an object returns a wrapper; a second \<open>add\<close> on the same object
  returns that same wrapper and leaves the state as it is.  After \<open>remove\<close>, \<open>add\<close>
  creates a wrapper at a new address of the store: it has no handlers, it is the one
  now registered for the object, and it differs from every wrapper that was registered
  before, the object's old one among them, which stays in the store unchanged.
\<close>

theorem add_idempotent:
  "(case add ob w of (r1, w1) \<Rightarrow> add ob w1 = (r1, w1) \<and> map_of (interactables (manager w1)) ob = Some r1)
   \<and> (case add ob (remove_object ob w) of
        (r2, w2) \<Rightarrow>
          r2 = length (wrappers w)
          \<and> eventHandlers (wrappers w2 ! r2) = Map.empty
          \<and> map_of (interactables (manager w2)) ob = Some r2
          \<and> (\<forall>r < length (wrappers w). wrappers w2 ! r = wrappers w ! r)
          \<and> (refs_ok w \<longrightarrow> (\<forall>p \<in> set (interactables (manager w)). snd p \<noteq> r2)))"
proof (intro conjI)
  show "case add ob w of (r1, w1) \<Rightarrow> add ob w1 = (r1, w1) \<and> map_of (interactables (manager w1)) ob = Some r1"
  proof (cases "map_of (interactables (manager w)) ob")
    case None
    let ?w1 = "w\<lparr>wrappers := wrappers w @ [\<lparr>wobject = ob, eventHandlers = Map.empty\<rparr>],
       manager := (manager w)
         \<lparr>interactables := interactables (manager w) @ [(ob, length (wrappers w))]\<rparr>\<rparr>"
    have "map_of (interactables (manager ?w1)) ob = Some (length (wrappers w))"
      using None by (simp add: map_of_snoc del: map_of_append)
    then show ?thesis
      using None by (simp add: add_fresh add_registered del: map_of_append)
  next
    case (Some r)
    then show ?thesis by (simp add: add_registered)
  qed
next
  have gone: "map_of (interactables (manager (remove_object ob w))) ob = None"
    by (simp add: remove_object_def map_of_removed)
  have "snd p \<noteq> length (wrappers w)"
    if "refs_ok w" and "p \<in> set (interactables (manager w))" for p
    using that unfolding refs_ok_def by fastforce
  with gone show "case add ob (remove_object ob w) of
        (r2, w2) \<Rightarrow>
          r2 = length (wrappers w)
          \<and> eventHandlers (wrappers w2 ! r2) = Map.empty
          \<and> map_of (interactables (manager w2)) ob = Some r2
          \<and> (\<forall>r < length (wrappers w). wrappers w2 ! r = wrappers w ! r)
          \<and> (refs_ok w \<longrightarrow> (\<forall>p \<in> set (interactables (manager w)). snd p \<noteq> r2))"
    by (simp add: add_fresh map_of_snoc map_of_removed nth_append remove_object_def
        del: map_of_append)
qed

theorem add_idempotent_witness:
  "refs_ok (one_registry [10])
   \<and> add 7 (one_registry [10]) = (0, one_registry [10])
   \<and> fst (add 7 (remove_object 7 (one_registry [10]))) = 1
   \<and> eventHandlers (wrappers (snd (add 7 (remove_object 7 (one_registry [10]))))
        ! fst (add 7 (remove_object 7 (one_registry [10])))) Click = None
   \<and> eventHandlers (wrappers (snd (add 7 (remove_object 7 (one_registry [10])))) ! 0) Click
        = Some 0"
proof -
  have ok: "refs_ok (one_registry [10])"
    by (simp add: refs_ok_def one_registry_def)
  have a: "add 7 (one_registry [10]) = (0, one_registry [10])"
    by (simp add: add_def one_registry_def)
  have l: "length (wrappers (one_registry [10])) = 1"
    "eventHandlers (wrappers (one_registry [10]) ! 0) Click = Some 0"
    by (simp_all add: one_registry_def)
  from add_idempotent [of 7 "one_registry [10]"] ok a l show ?thesis
    by (auto split: prod.splits)
qed



text \<open>
  Claim C2, as the code has it.  \<open>onPointerDown\<close> assigns \<open>dragObject\<close> and
  \<open>activeObject\<close> inside the loop, after every dispatch.  A sample that dispatches
  nothing leaves both as they were.  Otherwise both end as the target of the last
  dispatch of the sample, which is an object of the hit list.  They are the nearest
  hit object when that object is registered and either it is the only hit or its
  dispatch leaves the event stopped.
\<close>

theorem pointerdown_targets:
  "(dispatches (since w (onPointerDown beh sc e w)) = [] \<longrightarrow>
      dragObject (manager (onPointerDown beh sc e w)) = dragObject (manager w)
    \<and> activeObject (manager (onPointerDown beh sc e w)) = activeObject (manager w))
   \<and> (dispatches (since w (onPointerDown beh sc e w)) \<noteq> [] \<longrightarrow>
      dragObject (manager (onPointerDown beh sc e w))
        = Some (target (snd (last (dispatches (since w (onPointerDown beh sc e w))))))
    \<and> activeObject (manager (onPointerDown beh sc e w))
        = Some (target (snd (last (dispatches (since w (onPointerDown beh sc e w))))))
    \<and> target (snd (last (dispatches (since w (onPointerDown beh sc e w)))))
        \<in> object ` set (performRaycast sc w))
   \<and> (performRaycast sc w = i # rest
      \<and> map_of (interactables (manager w)) (object i) = Some r
      \<and> (rest = [] \<or> stopped (fst (snd (fire beh r (mk_event Pointerdown e (0, 0) i)
                                            (snd (updatePointer e w)))))) \<longrightarrow>
      dragObject (manager (onPointerDown beh sc e w)) = Some (object i)
    \<and> activeObject (manager (onPointerDown beh sc e w)) = Some (object i))"
proof -
  let ?w0 = "snd (updatePointer e w)"
  let ?mk = "mk_event Pointerdown e (0, 0)"
  let ?hits = "performRaycast sc w"
  let ?w' = "hitLoop beh ?mk capture ?hits ?w0"
  have down: "onPointerDown beh sc e w = ?w'"
    by (simp add: onPointerDown_eq downLoop_hitLoop)
  obtain es where es: "trace ?w' = trace ?w0 @ es"
    "dispatches es = [] \<longrightarrow> ?w' = ?w0"
    "dispatches es \<noteq> [] \<longrightarrow>
       dragObject (manager ?w') = Some (target (snd (last (dispatches es))))
     \<and> activeObject (manager ?w') = Some (target (snd (last (dispatches es))))"
    using downLoop_last [of ?mk beh ?hits ?w0] by auto
  have since: "since w ?w' = es" using es(1) by simp
  obtain es' where es': "trace ?w' = trace ?w0 @ es'"
    "subseq (map snd (dispatches es')) (map ?mk ?hits)"
    using hitLoop_trace [of capture beh ?mk ?hits ?w0] by auto
  from es(1) es'(1) have same: "es' = es" by simp
  have hit: "target (snd (last (dispatches es))) \<in> object ` set ?hits"
    if ne: "dispatches es \<noteq> []"
  proof -
    from ne have "snd (last (dispatches es)) \<in> set (map snd (dispatches es))" by simp
    moreover have "subseq (map snd (dispatches es)) (map ?mk ?hits)"
      using es'(2) same by simp
    ultimately have "snd (last (dispatches es)) \<in> set (map ?mk ?hits)"
      by (rule subseq_member [rotated])
    then show ?thesis by auto
  qed
  have first: "dragObject (manager ?w') = Some (object i)
      \<and> activeObject (manager ?w') = Some (object i)"
    if h: "?hits = i # rest" and r: "map_of (interactables (manager w)) (object i) = Some r"
      and c: "rest = [] \<or> stopped (fst (snd (fire beh r (?mk i) ?w0)))"
  proof -
    have r0: "map_of (interactables (manager ?w0)) (object i) = Some r" using r by simp
    have "hitLoop beh ?mk capture (i # rest) ?w0 = hitLoop beh ?mk capture [i] ?w0"
      using c hitLoop_stop [where mk = ?mk, OF r0] by auto
    then have "?w' = capture (object i) (snd (snd (fire beh r (?mk i) ?w0)))"
      using h hitLoop_single [where mk = ?mk, OF r0] by simp
    then show ?thesis by simp
  qed
  show ?thesis
    unfolding down since using es(2,3) hit first by auto
qed

theorem pointerdown_targets_witness:
  "performRaycast (ray [7, 8]) two_objects = [hit 7, hit 8]
   \<and> map_of (interactables (manager two_objects)) (object (hit 7)) = Some 0
   \<and> stopped (fst (snd (fire near_stops 0 (mk_event Pointerdown (pointer_at 0 0) (0, 0) (hit 7))
        (snd (updatePointer (pointer_at 0 0) two_objects)))))
   \<and> dragObject (manager (onPointerDown near_stops (ray [7, 8]) (pointer_at 0 0) two_objects))
       = Some 7
   \<and> activeObject (manager (onPointerDown near_stops (ray [7, 8]) (pointer_at 0 0) two_objects))
       = Some 7"
proof -
  have h: "performRaycast (ray [7, 8]) two_objects = [hit 7, hit 8]"
    by (simp add: performRaycast_def ray_def two_objects_def hit_def)
  have r: "map_of (interactables (manager two_objects)) (object (hit 7)) = Some 0"
    by (simp add: two_objects_def hit_def)
  have s: "stopped (fst (snd (fire near_stops 0
      (mk_event Pointerdown (pointer_at 0 0) (0, 0) (hit 7))
      (snd (updatePointer (pointer_at 0 0) two_objects)))))"
    by (simp add: fire_def dispatchEvent_def forEach.simps call_def near_stops_def
        two_objects_def updatePointer_def mk_event_def new_InteractEvent_def
        stopPropagation_def)
  from pointerdown_targets [of two_objects near_stops "ray [7, 8]" "pointer_at 0 0"
      "hit 7" "[hit 8]" 0] h r s
  show ?thesis by (simp add: hit_def)
qed

theorem pointerdown_last_hit_wins:
  "performRaycast (ray [7, 8]) two_objects = [hit 7, hit 8]
   \<and> dragObject (manager (onPointerDown quiet (ray [7, 8]) (pointer_at 0 0) two_objects))
       = Some 8
   \<and> activeObject (manager (onPointerDown quiet (ray [7, 8]) (pointer_at 0 0) two_objects))
       = Some 8"
  by (simp add: performRaycast_def ray_def two_objects_def hit_def onPointerDown_def
      updatePointer_def fire_def dispatchEvent_def forEach.simps call_def quiet_def
      new_InteractEvent_def pointer_at_def)

text \<open>
  Claim C5, as the code has it.  A \<open>pointerdown\<close> sample whose only hit is the
  registered object of \<open>i\<close> makes that object the drag target.  If no handler removes the
  object, the next \<open>pointermove\<close> sample dispatches exactly one \<open>drag\<close> event: to the
  object's wrapper, with the object as target and the displacement between the two
  samples as \<open>delta\<close>, whatever the hit list of that sample is.  A \<open>pointerup\<close> sample
  leaves no drag target, and the \<open>pointermove\<close> sample after it dispatches no \<open>drag\<close>
  event.  In any state, the \<open>drag\<close> events of a \<open>pointermove\<close> sample are: one, to the
  wrapper of the drag target, if there is a drag target and it is registered; none
  otherwise.
\<close>

theorem drag_lifecycle:
  "(performRaycast sc w = [i] \<and> map_of (interactables (manager w)) (object i) = Some r
    \<and> never_removes beh (object i) \<longrightarrow>
      (let w1 = onPointerDown beh sc e w;
           w2 = onPointerMove beh sc2 e2 w1;
           w3 = onPointerUp beh sc3 e3 w2;
           w4 = onPointerMove beh sc4 e4 w3
       in dragObject (manager w1) = Some (object i)
        \<and> events_of Drag (since w1 w2) =
            [(r, (new_InteractEvent Drag (object i) (getIntersection sc2 (object i)) e2)
                   \<lparr>delta := (clientX e2 - clientX e, clientY e2 - clientY e)\<rparr>)]
        \<and> dragObject (manager w3) = None
        \<and> events_of Drag (since w3 w4) = []))
   \<and> (dragObject (manager w) = Some ob \<and> map_of (interactables (manager w)) ob = Some r \<longrightarrow>
        events_of Drag (since w (onPointerMove beh sc e w)) =
          [(r, (new_InteractEvent Drag ob (getIntersection sc ob) e)
                 \<lparr>delta := (clientX e - fst (lastMousePosition (manager w)),
                            clientY e - snd (lastMousePosition (manager w)))\<rparr>)])
   \<and> (dragObject (manager w) = None \<or> (\<exists>ob. dragObject (manager w) = Some ob
          \<and> map_of (interactables (manager w)) ob = None) \<longrightarrow>
        events_of Drag (since w (onPointerMove beh sc e w)) = [])
   \<and> dragObject (manager (onPointerUp beh sc e w)) = None"
proof (intro conjI impI)
  assume a: "performRaycast sc w = [i] \<and> map_of (interactables (manager w)) (object i) = Some r
    \<and> never_removes beh (object i)"
  let ?w1 = "onPointerDown beh sc e w"
  let ?w2 = "onPointerMove beh sc2 e2 ?w1"
  let ?w3 = "onPointerUp beh sc3 e3 ?w2"
  let ?w4 = "onPointerMove beh sc4 e4 ?w3"
  have d1: "dragObject (manager ?w1) = Some (object i)"
    and p1: "lastMousePosition (manager ?w1) = (clientX e, clientY e)"
    and r1: "map_of (interactables (manager ?w1)) (object i) = Some r"
    using a by (simp_all add: pointerdown_single_state)
  have m2: "events_of Drag (since ?w1 ?w2) =
            [(r, (new_InteractEvent Drag (object i) (getIntersection sc2 (object i)) e2)
                   \<lparr>delta := (clientX e2 - clientX e, clientY e2 - clientY e)\<rparr>)]"
    by (simp add: pointermove_drag_events d1 p1 r1)
  have d3: "dragObject (manager ?w3) = None" by (rule pointerup_no_drag)
  have m4: "events_of Drag (since ?w3 ?w4) = []"
    by (simp add: pointermove_drag_events d3)
  from d1 m2 d3 m4 show "let w1 = onPointerDown beh sc e w;
           w2 = onPointerMove beh sc2 e2 w1;
           w3 = onPointerUp beh sc3 e3 w2;
           w4 = onPointerMove beh sc4 e4 w3
       in dragObject (manager w1) = Some (object i)
        \<and> events_of Drag (since w1 w2) =
            [(r, (new_InteractEvent Drag (object i) (getIntersection sc2 (object i)) e2)
                   \<lparr>delta := (clientX e2 - clientX e, clientY e2 - clientY e)\<rparr>)]
        \<and> dragObject (manager w3) = None
        \<and> events_of Drag (since w3 w4) = []"
    by (simp add: Let_def)
next
  assume "dragObject (manager w) = Some ob \<and> map_of (interactables (manager w)) ob = Some r"
  then show "events_of Drag (since w (onPointerMove beh sc e w)) =
          [(r, (new_InteractEvent Drag ob (getIntersection sc ob) e)
                 \<lparr>delta := (clientX e - fst (lastMousePosition (manager w)),
                            clientY e - snd (lastMousePosition (manager w)))\<rparr>)]"
    by (simp add: pointermove_drag_events)
next
  assume "dragObject (manager w) = None \<or> (\<exists>ob. dragObject (manager w) = Some ob
          \<and> map_of (interactables (manager w)) ob = None)"
  then show "events_of Drag (since w (onPointerMove beh sc e w)) = []"
    by (auto simp: pointermove_drag_events)
next
  show "dragObject (manager (onPointerUp beh sc e w)) = None"
    by (rule pointerup_no_drag)
qed

theorem drag_lifecycle_witness:
  "performRaycast (ray [7]) two_objects = [hit 7]
   \<and> map_of (interactables (manager two_objects)) (object (hit 7)) = Some 0
   \<and> never_removes near_stops (object (hit 7))
   \<and> events_of Drag
        (since (onPointerDown near_stops (ray [7]) (pointer_at 100 100) two_objects)
           (onPointerMove near_stops (ray []) (pointer_at 105 110)
              (onPointerDown near_stops (ray [7]) (pointer_at 100 100) two_objects)))
       = [(0, (new_InteractEvent Drag 7 \<lparr>distance = 0, object = 7\<rparr> (pointer_at 105 110))
                \<lparr>delta := (5, 10)\<rparr>)]
   \<and> events_of Drag
        (since (onPointerUp near_stops (ray []) (pointer_at 105 110)
                  (onPointerMove near_stops (ray []) (pointer_at 105 110)
                     (onPointerDown near_stops (ray [7]) (pointer_at 100 100) two_objects)))
           (onPointerMove near_stops (ray [7]) (pointer_at 106 111)
              (onPointerUp near_stops (ray []) (pointer_at 105 110)
                 (onPointerMove near_stops (ray []) (pointer_at 105 110)
                    (onPointerDown near_stops (ray [7]) (pointer_at 100 100) two_objects)))))
       = []"
proof -
  have h: "performRaycast (ray [7]) two_objects = [hit 7]"
    by (simp add: performRaycast_def ray_def two_objects_def hit_def)
  have r: "map_of (interactables (manager two_objects)) (object (hit 7)) = Some 0"
    by (simp add: two_objects_def hit_def)
  have n: "never_removes near_stops (object (hit 7))"
    by (simp add: never_removes_def handlers_only_def near_stops_def)
  have g: "getIntersection (ray []) (object (hit 7)) = \<lparr>distance = 0, object = 7\<rparr>"
    by (simp add: getIntersection_def ray_def hit_def)
  from drag_lifecycle [of "ray [7]" two_objects "hit 7" 0 near_stops "pointer_at 100 100"
      "ray []" "pointer_at 105 110" "ray []" "pointer_at 105 110" "ray [7]" "pointer_at 106 111"]
    h r n g
  show ?thesis by (simp add: Let_def pointer_at_def hit_def)
qed

theorem drag_goes_to_last_hit:
  "performRaycast (ray [7, 8]) two_objects = [hit 7, hit 8]
   \<and> map_of (interactables (manager two_objects)) 7 = Some 0
   \<and> map (\<lambda>p. (fst p, target (snd p)))
        (events_of Drag
          (since (onPointerDown quiet (ray [7, 8]) (pointer_at 100 100) two_objects)
             (onPointerMove quiet (ray [7, 8]) (pointer_at 105 110)
                (onPointerDown quiet (ray [7, 8]) (pointer_at 100 100) two_objects))))
       = [(1, 8)]"
proof -
  have h: "performRaycast (ray [7, 8]) two_objects = [hit 7, hit 8]"
    by (simp add: performRaycast_def ray_def two_objects_def hit_def)
  have r: "map_of (interactables (manager two_objects)) 7 = Some 0"
    by (simp add: two_objects_def)
  let ?w1 = "onPointerDown quiet (ray [7, 8]) (pointer_at 100 100) two_objects"
  have d: "dragObject (manager ?w1) = Some 8"
    by (simp add: performRaycast_def ray_def two_objects_def hit_def onPointerDown_def
        updatePointer_def fire_def dispatchEvent_def forEach.simps call_def quiet_def
        new_InteractEvent_def pointer_at_def)
  have i: "map_of (interactables (manager ?w1)) 8 = Some 1"
    by (simp add: performRaycast_def ray_def two_objects_def hit_def onPointerDown_def
        updatePointer_def fire_def dispatchEvent_def forEach.simps call_def quiet_def
        new_InteractEvent_def pointer_at_def)
  show ?thesis
    using h r by (simp add: pointermove_drag_events d i)
qed

text \<open>
  Claim C7, as the code has it.  \<open>remove(object)\<close> takes the object out of the
  registry and out of the hover set, clears the drag target and the active target
  when they are that object, leaves the other objects and targets alone, and adds
  nothing to the trace: it dispatches no event.  The operations here are total
  functions: none of them has a failing case.  The invariant that a drag target or an
  active target is a registered object is kept by \<open>add\<close>, \<open>remove\<close>, \<open>onClick\<close>,
  \<open>onPointerUp\<close> and \<open>onPointerMove\<close> whatever the handlers do, and by
  \<open>onPointerDown\<close> when no handler calls \<open>remove\<close> (it assigns the targets after the
  dispatch, without looking the object up again).  After the current drag target has
  been removed there is no drag target, and a following \<open>onPointerMove\<close> or
  \<open>onPointerUp\<close> dispatches no \<open>drag\<close> event and leaves no drag target.
\<close>

theorem remove_clears_targets:
  "(map_of (interactables (manager (remove_object ob w))) ob = None
    \<and> \<not> hovered (remove_object ob w) ob
    \<and> dragObject (manager (remove_object ob w))
        = (if dragObject (manager w) = Some ob then None else dragObject (manager w))
    \<and> activeObject (manager (remove_object ob w))
        = (if activeObject (manager w) = Some ob then None else activeObject (manager w))
    \<and> since w (remove_object ob w) = []
    \<and> (\<forall>ob'. ob' \<noteq> ob \<longrightarrow>
          map_of (interactables (manager (remove_object ob w))) ob'
            = map_of (interactables (manager w)) ob'
        \<and> hovered (remove_object ob w) ob' = hovered w ob'))
   \<and> (targets_ok w \<longrightarrow>
        targets_ok (remove_object ob w) \<and> targets_ok (snd (add ob w))
      \<and> targets_ok (onClick beh sc e w) \<and> targets_ok (onPointerUp beh sc e w)
      \<and> targets_ok (onPointerMove beh sc e w)
      \<and> (handlers_only beh (\<lambda>act. \<not> is_remove act) \<longrightarrow>
            targets_ok (onPointerDown beh sc e w)))
   \<and> (dragObject (manager w) = Some ob \<longrightarrow>
        dragObject (manager (remove_object ob w)) = None
      \<and> events_of Drag (since (remove_object ob w)
           (onPointerMove beh sc e (remove_object ob w))) = []
      \<and> events_of Drag (since (remove_object ob w)
           (onPointerUp beh sc e (remove_object ob w))) = []
      \<and> dragObject (manager (onPointerMove beh sc e (remove_object ob w))) = None
      \<and> dragObject (manager (onPointerUp beh sc e (remove_object ob w))) = None)"
proof (intro conjI impI allI)
  show "map_of (interactables (manager (remove_object ob w))) ob = None"
    by (simp add: remove_object_def map_of_removed)
  show "\<not> hovered (remove_object ob w) ob" by simp
  show "dragObject (manager (remove_object ob w))
        = (if dragObject (manager w) = Some ob then None else dragObject (manager w))"
    by (rule targets_remove)
  show "activeObject (manager (remove_object ob w))
        = (if activeObject (manager w) = Some ob then None else activeObject (manager w))"
    by (rule targets_remove)
  show "since w (remove_object ob w) = []" by (simp add: since_def)
next
  fix ob'
  assume "ob' \<noteq> ob"
  then show "map_of (interactables (manager (remove_object ob w))) ob'
            = map_of (interactables (manager w)) ob'"
    by (simp add: lookup_remove)
  from \<open>ob' \<noteq> ob\<close> show "hovered (remove_object ob w) ob' = hovered w ob'" by simp
next
  assume ok: "targets_ok w"
  then show "targets_ok (remove_object ob w)" by (rule targets_ok_remove)
  from ok show "targets_ok (snd (add ob w))" by (rule targets_ok_add)
  from ok show "targets_ok (onClick beh sc e w)" by (rule targets_ok_click)
  from ok show "targets_ok (onPointerUp beh sc e w)" by (rule targets_ok_up)
  from ok show "targets_ok (onPointerMove beh sc e w)" by (rule targets_ok_move)
  assume "handlers_only beh (\<lambda>act. \<not> is_remove act)"
  then show "targets_ok (onPointerDown beh sc e w)" using ok by (rule targets_ok_down)
next
  assume d: "dragObject (manager w) = Some ob"
  let ?w1 = "remove_object ob w"
  show n: "dragObject (manager ?w1) = None" using d by (simp add: targets_remove)
  show "events_of Drag (since ?w1 (onPointerMove beh sc e ?w1)) = []"
    by (simp add: pointermove_drag_events n)
  obtain es where "trace (onPointerUp beh sc e ?w1) = trace ?w1 @ es" "typed {Pointerup} es"
    using pointerup_typed by blast
  then show "events_of Drag (since ?w1 (onPointerUp beh sc e ?w1)) = []"
    by (simp add: typed_events_of)
  have "dragObject (manager (snd (updatePointer e ?w1))) = None" using n by simp
  then have "dragObject (manager (processRaycast beh sc e
      (hitLoop beh (mk_event Pointermove e (fst (updatePointer e ?w1))) (\<lambda>ob w. w)
         (performRaycast sc (dragStep beh sc e (fst (updatePointer e ?w1))
            (snd (updatePointer e ?w1))))
         (dragStep beh sc e (fst (updatePointer e ?w1)) (snd (updatePointer e ?w1))))))
      = None"
    by (intro processRaycast_kept [OF kept_no_drag] hitLoop_kept [OF kept_no_drag]
        dragStep_kept [OF kept_no_drag]) (simp_all add: hover_def unhover_def)
  then show "dragObject (manager (onPointerMove beh sc e ?w1)) = None"
    by (simp add: onPointerMove_eq Let_def moveLoop_hitLoop)
  show "dragObject (manager (onPointerUp beh sc e ?w1)) = None"
    by (rule pointerup_no_drag)
qed

theorem remove_clears_targets_witness:
  "targets_ok (onPointerDown near_stops (ray [7]) (pointer_at 0 0) two_objects)
   \<and> dragObject (manager (onPointerDown near_stops (ray [7]) (pointer_at 0 0) two_objects))
       = Some 7
   \<and> handlers_only near_stops (\<lambda>act. \<not> is_remove act)
   \<and> dragObject (manager (remove_object 7
        (onPointerDown near_stops (ray [7]) (pointer_at 0 0) two_objects))) = None
   \<and> events_of Drag
        (since (remove_object 7 (onPointerDown near_stops (ray [7]) (pointer_at 0 0) two_objects))
           (onPointerMove near_stops (ray [7]) (pointer_at 5 10)
              (remove_object 7
                 (onPointerDown near_stops (ray [7]) (pointer_at 0 0) two_objects)))) = []
   \<and> targets_ok (onPointerMove near_stops (ray [7]) (pointer_at 5 10)
        (remove_object 7 (onPointerDown near_stops (ray [7]) (pointer_at 0 0) two_objects)))"
proof -
  let ?w1 = "onPointerDown near_stops (ray [7]) (pointer_at 0 0) two_objects"
  have t0: "targets_ok two_objects"
    by (simp add: targets_ok_def two_objects_def)
  have n: "handlers_only near_stops (\<lambda>act. \<not> is_remove act)"
    by (simp add: handlers_only_def near_stops_def)
  have d: "dragObject (manager ?w1) = Some 7"
    by (simp add: performRaycast_def ray_def two_objects_def hit_def onPointerDown_def
        updatePointer_def fire_def dispatchEvent_def forEach.simps call_def near_stops_def
        new_InteractEvent_def pointer_at_def stopPropagation_def)
  have t1: "targets_ok ?w1"
    using remove_clears_targets [of 7 two_objects near_stops "ray [7]" "pointer_at 0 0"] t0 n
    by simp
  have t2: "targets_ok (remove_object 7 ?w1)"
    using remove_clears_targets [of 7 ?w1 near_stops "ray [7]" "pointer_at 0 0"] t1
    by simp
  from remove_clears_targets [of 7 ?w1 near_stops "ray [7]" "pointer_at 5 10"]
    remove_clears_targets [of 7 "remove_object 7 ?w1" near_stops "ray [7]" "pointer_at 5 10"]
    t1 t2 d n
  show ?thesis by simp
qed

theorem pointerdown_handler_removing_its_object:
  "targets_ok two_objects
   \<and> dragObject (manager (onPointerDown deleting (ray [7]) (pointer_at 0 0) two_objects))
       = Some 7
   \<and> activeObject (manager (onPointerDown deleting (ray [7]) (pointer_at 0 0) two_objects))
       = Some 7
   \<and> map_of (interactables
        (manager (onPointerDown deleting (ray [7]) (pointer_at 0 0) two_objects))) 7 = None
   \<and> \<not> targets_ok (onPointerDown deleting (ray [7]) (pointer_at 0 0) two_objects)"
  by (simp add: targets_ok_def registered_def performRaycast_def ray_def two_objects_def
      hit_def onPointerDown_def updatePointer_def fire_def dispatchEvent_def forEach.simps
      call_def deleting_def new_InteractEvent_def pointer_at_def remove_object_def)

text \<open>
  Claim C4, as the code has it.  The first loop of \<open>processRaycast\<close> goes through the
  hits in order.  A hit whose object is unregistered or already hovered is passed over.
  A hit whose object is registered and not hovered puts the object in the hover set and
  dispatches \<open>pointerenter\<close> to its wrapper; the loop ends there when that dispatch
  returned true and left the event stopped, and goes on with the rest of the hits
  otherwise (\<open>enter_broke\<close> tells whether the loop over a list of hits ended this way).
  For a registered object \<open>A\<close> that no handler removes from the coordinator, in one
  run of \<open>processRaycast\<close>: if \<open>A\<close> is hovered and hit, or not hovered and not hit, no
  hover event is dispatched on it and its hover state stays; if it is hovered and not
  hit, exactly one \<open>pointerleave\<close> is dispatched on it, to its wrapper, and it leaves
  the hover set, whatever happens to the other objects; if it is not hovered and hit,
  with \<open>pre\<close> the hits before its first hit \<open>j\<close>: when the first loop has not ended on
  \<open>pre\<close>, \<open>A\<close> enters the hover set with exactly one \<open>pointerenter\<close>, the event of
  \<open>j\<close>, dispatched to its wrapper; when it has, \<open>A\<close> gets no event and stays out of
  the hover set.  Over three \<open>pointermove\<close> samples whose hit lists are \<open>[A]\<close>, \<open>[]\<close>
  and \<open>[]\<close>, starting with \<open>A\<close> not hovered: the first dispatches one \<open>pointerenter\<close>
  on \<open>A\<close> and no \<open>pointerleave\<close>, the second one \<open>pointerleave\<close> and no
  \<open>pointerenter\<close>, the third neither.
\<close>

theorem hover_diffing:
  "(never_removes beh A \<and> map_of (interactables (manager w)) A = Some r \<longrightarrow>
      (let w' = processRaycast beh sc e w;
           ins = events_for Pointerenter A (since w w');
           outs = events_for Pointerleave A (since w w');
           hits = performRaycast sc w
       in (hovered w A \<and> A \<in> object ` set hits \<longrightarrow>
             ins = [] \<and> outs = [] \<and> hovered w' A)
        \<and> (hovered w A \<and> A \<notin> object ` set hits \<longrightarrow>
             ins = []
           \<and> outs = [(r, new_InteractEvent Pointerleave A (getIntersection sc A) e)]
           \<and> \<not> hovered w' A)
        \<and> (\<not> hovered w A \<and> A \<notin> object ` set hits \<longrightarrow>
             ins = [] \<and> outs = [] \<and> \<not> hovered w' A)
        \<and> (\<not> hovered w A \<and> hits = pre @ j # post \<and> object j = A
            \<and> A \<notin> object ` set pre \<longrightarrow>
             outs = []
           \<and> (\<not> enter_broke beh e pre w \<longrightarrow>
                 hovered w' A \<and> ins = [(r, mk_event Pointerenter e (0, 0) j)])
           \<and> (enter_broke beh e pre w \<longrightarrow> \<not> hovered w' A \<and> ins = []))))
   \<and> (enterLoop beh e [] v = v \<and> \<not> enter_broke beh e [] v)
   \<and> (map_of (interactables (manager v)) (object i) = None \<or> hovered v (object i) \<longrightarrow>
        enterLoop beh e (i # rest) v = enterLoop beh e rest v
      \<and> enter_broke beh e (i # rest) v = enter_broke beh e rest v)
   \<and> (map_of (interactables (manager v)) (object i) = Some ri \<and> \<not> hovered v (object i) \<longrightarrow>
        (let f = fire beh ri (mk_event Pointerenter e (0, 0) i) (hover (object i) v)
         in (fst f \<and> stopped (fst (snd f)) \<longrightarrow>
               enterLoop beh e (i # rest) v = snd (snd f)
             \<and> enter_broke beh e (i # rest) v)
          \<and> (\<not> (fst f \<and> stopped (fst (snd f))) \<longrightarrow>
               enterLoop beh e (i # rest) v = enterLoop beh e rest (snd (snd f))
             \<and> enter_broke beh e (i # rest) v = enter_broke beh e rest (snd (snd f)))))
   \<and> (never_removes beh A \<and> map_of (interactables (manager w)) A = Some r
       \<and> \<not> hovered w A \<and> object k = A
       \<and> (\<forall>objects. A \<in> set objects \<longrightarrow> intersectObjects sc1 objects = [k])
       \<and> (\<forall>objects. intersectObjects sc2 objects = [])
       \<and> (\<forall>objects. intersectObjects sc3 objects = []) \<longrightarrow>
       (let w1 = onPointerMove beh sc1 e1 w;
            w2 = onPointerMove beh sc2 e2 w1;
            w3 = onPointerMove beh sc3 e3 w2
        in events_for Pointerenter A (since w w1) = [(r, mk_event Pointerenter e1 (0, 0) k)]
         \<and> events_for Pointerleave A (since w w1) = []
         \<and> events_for Pointerenter A (since w1 w2) = []
         \<and> events_for Pointerleave A (since w1 w2)
             = [(r, new_InteractEvent Pointerleave A (getIntersection sc2 A) e2)]
         \<and> events_for Pointerenter A (since w2 w3) = []
         \<and> events_for Pointerleave A (since w2 w3) = []))"
proof (intro conjI impI)
  assume as: "never_removes beh A \<and> map_of (interactables (manager w)) A = Some r"
  then have nr: "handlers_only beh (\<lambda>act. act \<noteq> Remove A)"
    and reg: "map_of (interactables (manager w)) A = Some r"
    by (simp_all add: never_removes_def)
  from processRaycast_account [OF nr reg, of sc e]
  obtain es where es: "trace (processRaycast beh sc e w) = trace w @ es"
    "hovered w A \<and> A \<in> object ` set (performRaycast sc w) \<longrightarrow>
        events_for Pointerenter A es = [] \<and> events_for Pointerleave A es = []
      \<and> hovered (processRaycast beh sc e w) A"
    "hovered w A \<and> A \<notin> object ` set (performRaycast sc w) \<longrightarrow>
        events_for Pointerenter A es = []
      \<and> events_for Pointerleave A es
          = [(r, new_InteractEvent Pointerleave A (getIntersection sc A) e)]
      \<and> \<not> hovered (processRaycast beh sc e w) A"
    "\<not> hovered w A \<and> A \<notin> object ` set (performRaycast sc w) \<longrightarrow>
        events_for Pointerenter A es = [] \<and> events_for Pointerleave A es = []
      \<and> \<not> hovered (processRaycast beh sc e w) A"
    by blast
  have s: "since w (processRaycast beh sc e w) = es" using es(1) by simp
  have new: "events_for Pointerleave A es = []
      \<and> (\<not> enter_broke beh e pre w \<longrightarrow>
            hovered (processRaycast beh sc e w) A
          \<and> events_for Pointerenter A es = [(r, mk_event Pointerenter e (0, 0) j)])
      \<and> (enter_broke beh e pre w \<longrightarrow>
            \<not> hovered (processRaycast beh sc e w) A \<and> events_for Pointerenter A es = [])"
    if "\<not> hovered w A \<and> performRaycast sc w = pre @ j # post \<and> object j = A
        \<and> A \<notin> object ` set pre"
    using processRaycast_decided [OF nr reg, of sc pre j post e] that unfolding s by blast
  show "let w' = processRaycast beh sc e w;
           ins = events_for Pointerenter A (since w w');
           outs = events_for Pointerleave A (since w w');
           hits = performRaycast sc w
       in (hovered w A \<and> A \<in> object ` set hits \<longrightarrow>
             ins = [] \<and> outs = [] \<and> hovered w' A)
        \<and> (hovered w A \<and> A \<notin> object ` set hits \<longrightarrow>
             ins = []
           \<and> outs = [(r, new_InteractEvent Pointerleave A (getIntersection sc A) e)]
           \<and> \<not> hovered w' A)
        \<and> (\<not> hovered w A \<and> A \<notin> object ` set hits \<longrightarrow>
             ins = [] \<and> outs = [] \<and> \<not> hovered w' A)
        \<and> (\<not> hovered w A \<and> hits = pre @ j # post \<and> object j = A
            \<and> A \<notin> object ` set pre \<longrightarrow>
             outs = []
           \<and> (\<not> enter_broke beh e pre w \<longrightarrow>
                 hovered w' A \<and> ins = [(r, mk_event Pointerenter e (0, 0) j)])
           \<and> (enter_broke beh e pre w \<longrightarrow> \<not> hovered w' A \<and> ins = []))"
    unfolding Let_def s using es(2,3,4) new by blast
next
  show "enterLoop beh e [] v = v" by simp
  show "\<not> enter_broke beh e [] v" by simp
next
  assume a: "map_of (interactables (manager v)) (object i) = None \<or> hovered v (object i)"
  then show "enterLoop beh e (i # rest) v = enterLoop beh e rest v" by (rule enterLoop_skip)
  from a show "enter_broke beh e (i # rest) v = enter_broke beh e rest v"
    by (rule enter_broke_skip)
next
  assume a: "map_of (interactables (manager v)) (object i) = Some ri \<and> \<not> hovered v (object i)"
  then have ri: "map_of (interactables (manager v)) (object i) = Some ri"
    and nh: "\<not> hovered v (object i)" by simp_all
  show "let f = fire beh ri (mk_event Pointerenter e (0, 0) i) (hover (object i) v)
         in (fst f \<and> stopped (fst (snd f)) \<longrightarrow>
               enterLoop beh e (i # rest) v = snd (snd f)
             \<and> enter_broke beh e (i # rest) v)
          \<and> (\<not> (fst f \<and> stopped (fst (snd f))) \<longrightarrow>
               enterLoop beh e (i # rest) v = enterLoop beh e rest (snd (snd f))
             \<and> enter_broke beh e (i # rest) v = enter_broke beh e rest (snd (snd f)))"
    unfolding Let_def enterLoop_new [OF ri nh] enter_broke_new [OF ri nh] by auto
next
  assume a: "never_removes beh A \<and> map_of (interactables (manager w)) A = Some r
       \<and> \<not> hovered w A \<and> object k = A
       \<and> (\<forall>objects. A \<in> set objects \<longrightarrow> intersectObjects sc1 objects = [k])
       \<and> (\<forall>objects. intersectObjects sc2 objects = [])
       \<and> (\<forall>objects. intersectObjects sc3 objects = [])"
  then have nr: "handlers_only beh (\<lambda>act. act \<noteq> Remove A)"
    and reg: "map_of (interactables (manager w)) A = Some r"
    by (simp_all add: never_removes_def)
  let ?w1 = "onPointerMove beh sc1 e1 w"
  let ?w2 = "onPointerMove beh sc2 e2 ?w1"
  let ?w3 = "onPointerMove beh sc3 e3 ?w2"
  have none: "performRaycast sc v = []" if "\<forall>objects. intersectObjects sc objects = []"
    for sc v using that by (simp add: performRaycast_def)
  \<comment> \<open>first sample\<close>
  let ?b1 = "before_hover beh sc1 e1 w"
  have regb: "map_of (interactables (manager ?b1)) A = Some r"
    and hovb: "hovered ?b1 A = hovered w A"
    using before_hover_object [OF nr reg] by simp_all
  have "A \<in> set (map fst (interactables (manager ?b1)))"
    using map_of_SomeD [OF regb] by force
  with a have hits1: "performRaycast sc1 ?b1 = [k]" by (simp add: performRaycast_def)
  have in1: "hovered ?w1 A"
    unfolding onPointerMove_before
    using a hovb by (intro processRaycast_first_hit [OF nr regb _ hits1]) simp_all
  from pointermove_account [OF nr reg, of sc1 e1]
  obtain es1 where es1: "trace ?w1 = trace w @ es1"
    "map_of (interactables (manager ?w1)) A = Some r"
    "\<not> hovered w A \<and> A \<in> object ` set (performRaycast sc1 ?b1) \<longrightarrow>
        events_for Pointerleave A es1 = []
      \<and> ((hovered ?w1 A
            \<and> (\<exists>i \<in> set (performRaycast sc1 ?b1). object i = A
                  \<and> events_for Pointerenter A es1 = [(r, mk_event Pointerenter e1 (0, 0) i)]))
         \<or> (\<not> hovered ?w1 A \<and> events_for Pointerenter A es1 = []))"
    by blast
  have r1: "events_for Pointerenter A es1 = [(r, mk_event Pointerenter e1 (0, 0) k)]"
    "events_for Pointerleave A es1 = []"
    using es1(3) a in1 by (simp_all add: hits1)
  \<comment> \<open>second sample\<close>
  from pointermove_account [OF nr es1(2), of sc2 e2]
  obtain es2 where es2: "trace ?w2 = trace ?w1 @ es2"
    "map_of (interactables (manager ?w2)) A = Some r"
    "hovered ?w1 A \<and> A \<notin> object ` set (performRaycast sc2 (before_hover beh sc2 e2 ?w1)) \<longrightarrow>
        events_for Pointerenter A es2 = []
      \<and> events_for Pointerleave A es2
          = [(r, new_InteractEvent Pointerleave A (getIntersection sc2 A) e2)]
      \<and> \<not> hovered ?w2 A"
    by blast
  have r2: "events_for Pointerenter A es2 = []"
    "events_for Pointerleave A es2
       = [(r, new_InteractEvent Pointerleave A (getIntersection sc2 A) e2)]"
    "\<not> hovered ?w2 A"
    using es2(3) in1 a by (simp_all add: none)
  \<comment> \<open>third sample\<close>
  from pointermove_account [OF nr es2(2), of sc3 e3]
  obtain es3 where es3: "trace ?w3 = trace ?w2 @ es3"
    "\<not> hovered ?w2 A \<and> A \<notin> object ` set (performRaycast sc3 (before_hover beh sc3 e3 ?w2)) \<longrightarrow>
        events_for Pointerenter A es3 = [] \<and> events_for Pointerleave A es3 = []
      \<and> \<not> hovered ?w3 A"
    by blast
  have r3: "events_for Pointerenter A es3 = []" "events_for Pointerleave A es3 = []"
    using es3(2) r2(3) a by (simp_all add: none)
  have s: "since w ?w1 = es1" "since ?w1 ?w2 = es2" "since ?w2 ?w3 = es3"
    using es1(1) es2(1) es3(1) by simp_all
  show "let w1 = onPointerMove beh sc1 e1 w;
            w2 = onPointerMove beh sc2 e2 w1;
            w3 = onPointerMove beh sc3 e3 w2
        in events_for Pointerenter A (since w w1) = [(r, mk_event Pointerenter e1 (0, 0) k)]
         \<and> events_for Pointerleave A (since w w1) = []
         \<and> events_for Pointerenter A (since w1 w2) = []
         \<and> events_for Pointerleave A (since w1 w2)
             = [(r, new_InteractEvent Pointerleave A (getIntersection sc2 A) e2)]
         \<and> events_for Pointerenter A (since w2 w3) = []
         \<and> events_for Pointerleave A (since w2 w3) = []"
    unfolding Let_def s using r1 r2(1,2) r3 by simp
qed

theorem hover_diffing_witness:
  "never_removes near_stops 7
   \<and> map_of (interactables (manager two_objects)) 7 = Some 0
   \<and> \<not> hovered two_objects 7
   \<and> events_for Pointerenter 7
        (since two_objects (onPointerMove near_stops (ray [7]) (pointer_at 1 1) two_objects))
       = [(0, mk_event Pointerenter (pointer_at 1 1) (0, 0) (hit 7))]
   \<and> events_for Pointerleave 7
        (since (onPointerMove near_stops (ray [7]) (pointer_at 1 1) two_objects)
           (onPointerMove near_stops (ray []) (pointer_at 2 2)
              (onPointerMove near_stops (ray [7]) (pointer_at 1 1) two_objects)))
       = [(0, new_InteractEvent Pointerleave 7 \<lparr>distance = 0, object = 7\<rparr> (pointer_at 2 2))]
   \<and> events_for Pointerleave 7
        (since (onPointerMove near_stops (ray []) (pointer_at 2 2)
                  (onPointerMove near_stops (ray [7]) (pointer_at 1 1) two_objects))
           (onPointerMove near_stops (ray []) (pointer_at 3 3)
              (onPointerMove near_stops (ray []) (pointer_at 2 2)
                 (onPointerMove near_stops (ray [7]) (pointer_at 1 1) two_objects))))
       = []
   \<and> performRaycast (ray [7, 8]) two_objects = [hit 7, hit 8]
   \<and> map_of (interactables (manager two_objects)) 8 = Some 1
   \<and> enter_broke near_stops (pointer_at 1 1) [hit 7] two_objects
   \<and> events_for Pointerenter 8
        (since two_objects (processRaycast near_stops (ray [7, 8]) (pointer_at 1 1) two_objects))
       = []
   \<and> \<not> hovered (processRaycast near_stops (ray [7, 8]) (pointer_at 1 1) two_objects) 8
   \<and> \<not> enter_broke quiet (pointer_at 1 1) [hit 7] two_objects
   \<and> events_for Pointerenter 8
        (since two_objects (processRaycast quiet (ray [7, 8]) (pointer_at 1 1) two_objects))
       = [(1, mk_event Pointerenter (pointer_at 1 1) (0, 0) (hit 8))]
   \<and> hovered (processRaycast quiet (ray [7, 8]) (pointer_at 1 1) two_objects) 8"
proof -
  let ?e = "pointer_at 1 1"
  have n: "never_removes near_stops 7" "never_removes near_stops 8" "never_removes quiet 8"
    by (simp_all add: never_removes_def handlers_only_def near_stops_def quiet_def)
  have r: "map_of (interactables (manager two_objects)) 7 = Some 0"
    "map_of (interactables (manager two_objects)) 8 = Some 1"
    by (simp_all add: two_objects_def)
  have h: "\<not> hovered two_objects 7" "\<not> hovered two_objects 8"
    by (simp_all add: hovered_def two_objects_def)
  have s1: "\<forall>objects. 7 \<in> set objects \<longrightarrow> intersectObjects (ray [7]) objects = [hit 7]"
    by (simp add: ray_def hit_def)
  have s2: "\<forall>objects. intersectObjects (ray []) objects = []"
    by (simp add: ray_def)
  have g: "getIntersection (ray []) 7 = \<lparr>distance = 0, object = 7\<rparr>" "object (hit 7) = 7"
    by (simp_all add: getIntersection_def ray_def hit_def)
  have hits: "performRaycast (ray [7, 8]) two_objects = [hit 7] @ hit 8 # []"
    by (simp add: performRaycast_def ray_def two_objects_def hit_def)
  have o: "object (hit 8) = 8" "8 \<notin> object ` set [hit 7]"
    by (simp_all add: hit_def)
  have b: "enter_broke near_stops ?e [hit 7] two_objects"
    by (simp add: enter_broke.simps two_objects_def hit_def near_stops_def fire_def
        dispatchEvent_def forEach.simps call_def new_InteractEvent_def stopPropagation_def
        pointer_at_def)
  have nb: "\<not> enter_broke quiet ?e [hit 7] two_objects"
    by (simp add: enter_broke.simps two_objects_def hit_def quiet_def fire_def
        dispatchEvent_def forEach.simps call_def new_InteractEvent_def pointer_at_def)
  from hover_diffing [where beh = near_stops and A = 7 and w = two_objects and r = 0
        and k = "hit 7" and ?sc1.0 = "ray [7]" and ?sc2.0 = "ray []" and ?sc3.0 = "ray []"
        and ?e1.0 = "pointer_at 1 1" and ?e2.0 = "pointer_at 2 2" and ?e3.0 = "pointer_at 3 3",
      THEN conjunct2, THEN conjunct2, THEN conjunct2, THEN conjunct2]
    n(1) r(1) h(1) s1 s2 g
  have three: "events_for Pointerenter 7
        (since two_objects (onPointerMove near_stops (ray [7]) (pointer_at 1 1) two_objects))
       = [(0, mk_event Pointerenter (pointer_at 1 1) (0, 0) (hit 7))]
   \<and> events_for Pointerleave 7
        (since (onPointerMove near_stops (ray [7]) (pointer_at 1 1) two_objects)
           (onPointerMove near_stops (ray []) (pointer_at 2 2)
              (onPointerMove near_stops (ray [7]) (pointer_at 1 1) two_objects)))
       = [(0, new_InteractEvent Pointerleave 7 \<lparr>distance = 0, object = 7\<rparr> (pointer_at 2 2))]
   \<and> events_for Pointerleave 7
        (since (onPointerMove near_stops (ray []) (pointer_at 2 2)
                  (onPointerMove near_stops (ray [7]) (pointer_at 1 1) two_objects))
           (onPointerMove near_stops (ray []) (pointer_at 3 3)
              (onPointerMove near_stops (ray []) (pointer_at 2 2)
                 (onPointerMove near_stops (ray [7]) (pointer_at 1 1) two_objects))))
       = []"
    by (simp add: Let_def)
  from hover_diffing [where beh = near_stops and A = 8 and w = two_objects
      and r = 1 and sc = "ray [7, 8]" and e = ?e and pre = "[hit 7]" and j = "hit 8"
      and post = "[]", THEN conjunct1] n(2) r(2) h(2) hits o b
  have broke: "events_for Pointerenter 8
        (since two_objects (processRaycast near_stops (ray [7, 8]) ?e two_objects)) = []
      \<and> \<not> hovered (processRaycast near_stops (ray [7, 8]) ?e two_objects) 8"
    by (simp add: Let_def)
  from hover_diffing [where beh = quiet and A = 8 and w = two_objects
      and r = 1 and sc = "ray [7, 8]" and e = ?e and pre = "[hit 7]" and j = "hit 8"
      and post = "[]", THEN conjunct1] n(3) r(2) h(2) hits o nb
  have reached: "events_for Pointerenter 8
        (since two_objects (processRaycast quiet (ray [7, 8]) ?e two_objects))
       = [(1, mk_event Pointerenter ?e (0, 0) (hit 8))]
      \<and> hovered (processRaycast quiet (ray [7, 8]) ?e two_objects) 8"
    by (simp add: Let_def)
  from n(1) r h(1) three hits b broke nb reached show ?thesis by simp
qed

theorem hover_events_with_reentrant_handlers:
  "map_of (interactables (manager two_objects)) 7 = Some 0
   \<and> \<not> hovered two_objects 7
   \<and> performRaycast (ray [7]) two_objects = [hit 7]
   \<and> map fst (events_for Pointerenter 7
        (since two_objects (onPointerMove vanishing (ray [7]) (pointer_at 1 1) two_objects)))
       = [0]
   \<and> events_for Pointerleave 7
        (since (onPointerMove vanishing (ray [7]) (pointer_at 1 1) two_objects)
           (onPointerMove vanishing (ray []) (pointer_at 2 2)
              (onPointerMove vanishing (ray [7]) (pointer_at 1 1) two_objects)))
       = []
   \<and> map (\<lambda>p. (fst p, target (snd p)))
        (dispatches
          (since two_objects (enterLoop stop_once (pointer_at 1 1) [hit 7, hit 8] two_objects)))
       = [(0, 7), (1, 8)]
   \<and> stopped (fst (snd (fire stop_once 0 (mk_event Pointerenter (pointer_at 1 1) (0, 0) (hit 7))
        (hover 7 two_objects))))"
  by (simp add: two_objects_def hovered_def hover_def performRaycast_def ray_def hit_def
      onPointerMove_def updatePointer_def dragStep_def processRaycast_def pointer_at_def
      fire_def dispatchEvent_def forEach.simps call_def vanishing_def stop_once_def
      new_InteractEvent_def mk_event_def stopPropagation_def remove_object_def off_def
      set_handlers_def splice1_def since_def events_for_def dispatches_def enterLoop.simps
      leaveLoop.simps Let_def)

text \<open>
  Claim C10, as the code has it.  Take a run of \<open>processRaycast\<close> whose first loop
  reaches the hit \<open>i\<close> without having ended on the hits \<open>pre\<close> before it, with the
  object of \<open>i\<close> registered and not hovered at that point.  If the dispatch of its
  \<open>pointerenter\<close> returns true and leaves the event stopped, the loop ends there: the
  hits after \<open>i\<close> have no effect, and no object \<open>F\<close> other than that of \<open>i\<close> which is
  not among the earlier hits and was not hovered at the start is dispatched a
  \<open>pointerenter\<close> in this run or is in the hover set after it.  The dispatch returns
  true with the event stopped when the first \<open>pointerenter\<close> handler of the object
  stops the propagation and no handler of its sequence calls \<open>off\<close> with a handler.
  In any run, a hit \<open>j\<close> that the first loop reaches without having ended before, with
  its object registered and not hovered at that point, is dispatched \<open>pointerenter\<close>,
  to the wrapper of its object; if moreover no handler removes the object, and it was
  registered and not hovered at the start and is not among the earlier hits, this is
  the only \<open>pointerenter\<close> on it and it is in the hover set afterwards.  The loop does
  not end on hits whose objects are all unregistered or already hovered (they leave the
  state as it is), nor when no handler ever stops the propagation.  So after a run as
  in the first sentences, in the next \<open>pointermove\<close> sample where \<open>F\<close> is hit, not among
  the hits before its own, reached by the loop and registered when reached, \<open>F\<close> is
  dispatched \<open>pointerenter\<close>.
\<close>

theorem enter_stop_hides_farther:
  "(performRaycast sc w = pre @ i # rest \<and> \<not> enter_broke beh e pre w
    \<and> map_of (interactables (manager (enterLoop beh e pre w))) (object i) = Some r
    \<and> \<not> hovered (enterLoop beh e pre w) (object i)
    \<and> fst (fire beh r (mk_event Pointerenter e (0, 0) i)
             (hover (object i) (enterLoop beh e pre w)))
    \<and> stopped (fst (snd (fire beh r (mk_event Pointerenter e (0, 0) i)
                           (hover (object i) (enterLoop beh e pre w)))))
    \<longrightarrow> enterLoop beh e (pre @ i # rest) w = enterLoop beh e (pre @ [i]) w
      \<and> enter_broke beh e (pre @ i # rest) w
      \<and> (\<forall>F. F \<noteq> object i \<and> F \<notin> object ` set pre \<and> \<not> hovered w F \<longrightarrow>
            events_for Pointerenter F (since w (processRaycast beh sc e w)) = []
          \<and> \<not> hovered (processRaycast beh sc e w) F))
   \<and> (eventHandlers (wrappers v ! r) Pointerenter = Some a \<and> a < length (arrays v)
      \<and> arrays v ! a = h # hs \<and> (\<forall>ev w. StopPropagation \<in> set (beh h ev w))
      \<and> no_splice beh (h # hs)
    \<longrightarrow> fst (fire beh r (mk_event Pointerenter e (0, 0) i) (hover (object i) v))
      \<and> stopped (fst (snd (fire beh r (mk_event Pointerenter e (0, 0) i) (hover (object i) v)))))
   \<and> (performRaycast sc w = pre @ j # post \<and> \<not> enter_broke beh e pre w
      \<and> map_of (interactables (manager (enterLoop beh e pre w))) (object j) = Some rF
      \<and> \<not> hovered (enterLoop beh e pre w) (object j)
    \<longrightarrow> (rF, mk_event Pointerenter e (0, 0) j)
          \<in> set (events_for Pointerenter (object j) (since w (processRaycast beh sc e w))))
   \<and> (performRaycast sc w = pre @ j # post \<and> \<not> enter_broke beh e pre w
      \<and> never_removes beh (object j)
      \<and> map_of (interactables (manager w)) (object j) = Some rF
      \<and> \<not> hovered w (object j) \<and> object j \<notin> object ` set pre
    \<longrightarrow> hovered (processRaycast beh sc e w) (object j)
      \<and> events_for Pointerenter (object j) (since w (processRaycast beh sc e w))
          = [(rF, mk_event Pointerenter e (0, 0) j)])
   \<and> ((\<forall>k \<in> set pre. map_of (interactables (manager w)) (object k) = None
                        \<or> hovered w (object k))
    \<longrightarrow> \<not> enter_broke beh e pre w \<and> enterLoop beh e pre w = w)
   \<and> (never_stops beh \<longrightarrow> \<not> enter_broke beh e pre w)
   \<and> (performRaycast sc w = pre @ i # rest \<and> \<not> enter_broke beh e pre w
      \<and> map_of (interactables (manager (enterLoop beh e pre w))) (object i) = Some r
      \<and> \<not> hovered (enterLoop beh e pre w) (object i)
      \<and> fst (fire beh r (mk_event Pointerenter e (0, 0) i)
               (hover (object i) (enterLoop beh e pre w)))
      \<and> stopped (fst (snd (fire beh r (mk_event Pointerenter e (0, 0) i)
                             (hover (object i) (enterLoop beh e pre w)))))
      \<and> F \<noteq> object i \<and> F \<notin> object ` set pre \<and> \<not> hovered w F
    \<longrightarrow> (let w' = processRaycast beh sc e w;
             b = before_hover beh sc2 e2 w'
         in performRaycast sc2 b = pre2 @ j2 # post2 \<and> object j2 = F
            \<and> F \<notin> object ` set pre2 \<and> \<not> enter_broke beh e2 pre2 b
            \<and> map_of (interactables (manager (enterLoop beh e2 pre2 b))) F = Some rF
          \<longrightarrow> (rF, mk_event Pointerenter e2 (0, 0) j2)
                \<in> set (events_for Pointerenter F (since w' (onPointerMove beh sc2 e2 w')))))"
proof (intro conjI impI allI)
  assume a: "performRaycast sc w = pre @ i # rest \<and> \<not> enter_broke beh e pre w
    \<and> map_of (interactables (manager (enterLoop beh e pre w))) (object i) = Some r
    \<and> \<not> hovered (enterLoop beh e pre w) (object i)
    \<and> fst (fire beh r (mk_event Pointerenter e (0, 0) i)
             (hover (object i) (enterLoop beh e pre w)))
    \<and> stopped (fst (snd (fire beh r (mk_event Pointerenter e (0, 0) i)
                           (hover (object i) (enterLoop beh e pre w)))))"
  then have nb: "\<not> enter_broke beh e pre w"
    and reg: "map_of (interactables (manager (enterLoop beh e pre w))) (object i) = Some r"
    and nh: "\<not> hovered (enterLoop beh e pre w) (object i)"
    by simp_all
  have "enterLoop beh e (i # rest) (enterLoop beh e pre w)
      = enterLoop beh e [i] (enterLoop beh e pre w)"
    using a by (simp add: enterLoop_new [OF reg nh])
  then show "enterLoop beh e (pre @ i # rest) w = enterLoop beh e (pre @ [i]) w"
    by (simp add: enterLoop_append [OF nb])
  show "enter_broke beh e (pre @ i # rest) w"
    using a by (simp add: enter_broke_append enter_broke_new [OF reg nh])
next
  fix F
  assume a: "performRaycast sc w = pre @ i # rest \<and> \<not> enter_broke beh e pre w
    \<and> map_of (interactables (manager (enterLoop beh e pre w))) (object i) = Some r
    \<and> \<not> hovered (enterLoop beh e pre w) (object i)
    \<and> fst (fire beh r (mk_event Pointerenter e (0, 0) i)
             (hover (object i) (enterLoop beh e pre w)))
    \<and> stopped (fst (snd (fire beh r (mk_event Pointerenter e (0, 0) i)
                           (hover (object i) (enterLoop beh e pre w)))))"
    and f: "F \<noteq> object i \<and> F \<notin> object ` set pre \<and> \<not> hovered w F"
  show "events_for Pointerenter F (since w (processRaycast beh sc e w)) = []"
    by (rule processRaycast_hidden(1) [where pre = pre and i = i and rest = rest and r = r])
      (use a f in simp_all)
  show "\<not> hovered (processRaycast beh sc e w) F"
    by (rule processRaycast_hidden(2) [where pre = pre and i = i and rest = rest and r = r])
      (use a f in simp_all)
next
  assume a: "eventHandlers (wrappers v ! r) Pointerenter = Some a \<and> a < length (arrays v)
      \<and> arrays v ! a = h # hs \<and> (\<forall>ev w. StopPropagation \<in> set (beh h ev w))
      \<and> no_splice beh (h # hs)"
  let ?ev = "mk_event Pointerenter e (0, 0) i"
  let ?w1 = "hover (object i) v"
  have same: "wrappers ?w1 = wrappers v" "arrays ?w1 = arrays v"
    by (simp_all add: hover_def)
  have e1: "eventHandlers (wrappers ?w1 ! r) (etype ?ev) = Some a" using a same by simp
  have a1: "arrays ?w1 ! a = h # hs" "a < length (arrays ?w1)" using a same by simp_all
  from a have ns: "no_splice beh (h # hs)" and st: "\<forall>ev w. StopPropagation \<in> set (beh h ev w)"
    by blast+
  show "fst (fire beh r ?ev ?w1)"
    using e1 a1(2,1) ns by (rule fire_returns_true)
  show "stopped (fst (snd (fire beh r ?ev ?w1)))"
    using e1 a1(1) st by (rule fire_head_stops(1))
next
  assume a: "performRaycast sc w = pre @ j # post \<and> \<not> enter_broke beh e pre w
      \<and> map_of (interactables (manager (enterLoop beh e pre w))) (object j) = Some rF
      \<and> \<not> hovered (enterLoop beh e pre w) (object j)"
  then obtain es0 es where "since w (processRaycast beh sc e w)
      = es0 @ Dispatched rF (mk_event Pointerenter e (0, 0) j) # es"
    using processRaycast_reached [of sc w pre j post beh e rF] by blast
  then show "(rF, mk_event Pointerenter e (0, 0) j)
          \<in> set (events_for Pointerenter (object j) (since w (processRaycast beh sc e w)))"
    by simp
next
  assume a: "performRaycast sc w = pre @ j # post \<and> \<not> enter_broke beh e pre w
      \<and> never_removes beh (object j)
      \<and> map_of (interactables (manager w)) (object j) = Some rF
      \<and> \<not> hovered w (object j) \<and> object j \<notin> object ` set pre"
  then have nr: "handlers_only beh (\<lambda>act. act \<noteq> Remove (object j))"
    by (simp add: never_removes_def)
  from a have "hovered (processRaycast beh sc e w) (object j)
         \<and> events_for Pointerenter (object j) (since w (processRaycast beh sc e w))
             = [(rF, mk_event Pointerenter e (0, 0) j)]"
    by (intro processRaycast_decided(2) [OF nr, where pre = pre and post = post]) simp_all
  then show "hovered (processRaycast beh sc e w) (object j)"
    and "events_for Pointerenter (object j) (since w (processRaycast beh sc e w))
          = [(rF, mk_event Pointerenter e (0, 0) j)]"
    by simp_all
next
  assume a: "\<forall>k \<in> set pre. map_of (interactables (manager w)) (object k) = None
                        \<or> hovered w (object k)"
  then show "\<not> enter_broke beh e pre w" by (rule enter_broke_skip_prefix)
  from a show "enterLoop beh e pre w = w"
    using enterLoop_skip_prefix [of pre w beh e "[]"] by simp
next
  assume "never_stops beh"
  then show "\<not> enter_broke beh e pre w" by (rule enter_broke_never_stops)
next
  assume a: "performRaycast sc w = pre @ i # rest \<and> \<not> enter_broke beh e pre w
      \<and> map_of (interactables (manager (enterLoop beh e pre w))) (object i) = Some r
      \<and> \<not> hovered (enterLoop beh e pre w) (object i)
      \<and> fst (fire beh r (mk_event Pointerenter e (0, 0) i)
               (hover (object i) (enterLoop beh e pre w)))
      \<and> stopped (fst (snd (fire beh r (mk_event Pointerenter e (0, 0) i)
                             (hover (object i) (enterLoop beh e pre w)))))
      \<and> F \<noteq> object i \<and> F \<notin> object ` set pre \<and> \<not> hovered w F"
  let ?w' = "processRaycast beh sc e w"
  let ?b = "before_hover beh sc2 e2 ?w'"
  have nh': "\<not> hovered ?w' F"
    by (rule processRaycast_hidden(2) [where pre = pre and i = i and rest = rest and r = r])
      (use a in simp_all)
  have nhb: "\<not> hovered ?b F"
    by (rule before_hover_kept [OF kept_not_hovered]) (simp_all add: nh')
  obtain esb where esb: "trace ?b = trace ?w' @ esb"
    using before_hover_typed by blast
  have "(rF, mk_event Pointerenter e2 (0, 0) j2)
                \<in> set (events_for Pointerenter F (since ?w' (onPointerMove beh sc2 e2 ?w')))"
    if b: "performRaycast sc2 ?b = pre2 @ j2 # post2 \<and> object j2 = F
            \<and> F \<notin> object ` set pre2 \<and> \<not> enter_broke beh e2 pre2 ?b
            \<and> map_of (interactables (manager (enterLoop beh e2 pre2 ?b))) F = Some rF"
  proof -
    have "\<not> hovered (enterLoop beh e2 pre2 ?b) F"
      using nhb b by (intro enterLoop_not_hovered) simp_all
    with b obtain es0 es where "since ?b (processRaycast beh sc2 e2 ?b)
        = es0 @ Dispatched rF (mk_event Pointerenter e2 (0, 0) j2) # es"
      using processRaycast_reached [of sc2 ?b pre2 j2 post2 beh e2 rF] by auto
    moreover obtain esp where "trace (processRaycast beh sc2 e2 ?b) = trace ?b @ esp"
      using processRaycast_typed by blast
    ultimately have "trace (processRaycast beh sc2 e2 ?b)
        = trace ?w' @ (esb @ es0) @ Dispatched rF (mk_event Pointerenter e2 (0, 0) j2) # es"
      using esb by simp
    then have "since ?w' (onPointerMove beh sc2 e2 ?w')
        = (esb @ es0) @ Dispatched rF (mk_event Pointerenter e2 (0, 0) j2) # es"
      unfolding onPointerMove_before by (rule since_append)
    then show ?thesis using b by simp
  qed
  then show "let w' = processRaycast beh sc e w;
             b = before_hover beh sc2 e2 w'
         in performRaycast sc2 b = pre2 @ j2 # post2 \<and> object j2 = F
            \<and> F \<notin> object ` set pre2 \<and> \<not> enter_broke beh e2 pre2 b
            \<and> map_of (interactables (manager (enterLoop beh e2 pre2 b))) F = Some rF
          \<longrightarrow> (rF, mk_event Pointerenter e2 (0, 0) j2)
                \<in> set (events_for Pointerenter F (since w' (onPointerMove beh sc2 e2 w')))"
    unfolding Let_def by blast
qed

theorem enter_stop_hides_farther_witness:
  "performRaycast (ray [6, 7, 8]) three_objects = [hit 6, hit 7, hit 8]
   \<and> hovered three_objects 6
   \<and> \<not> enter_broke near_stops (pointer_at 1 1) [hit 6] three_objects
   \<and> fst (fire near_stops 0 (mk_event Pointerenter (pointer_at 1 1) (0, 0) (hit 7))
             (hover 7 three_objects))
   \<and> stopped (fst (snd (fire near_stops 0 (mk_event Pointerenter (pointer_at 1 1) (0, 0) (hit 7))
             (hover 7 three_objects))))
   \<and> events_for Pointerenter 8
        (since three_objects
           (processRaycast near_stops (ray [6, 7, 8]) (pointer_at 1 1) three_objects)) = []
   \<and> \<not> hovered (processRaycast near_stops (ray [6, 7, 8]) (pointer_at 1 1) three_objects) 8
   \<and> performRaycast (ray [6, 7, 8])
        (before_hover near_stops (ray [6, 7, 8]) (pointer_at 2 2)
           (processRaycast near_stops (ray [6, 7, 8]) (pointer_at 1 1) three_objects))
       = [hit 6, hit 7, hit 8]
   \<and> \<not> enter_broke near_stops (pointer_at 2 2) [hit 6, hit 7]
        (before_hover near_stops (ray [6, 7, 8]) (pointer_at 2 2)
           (processRaycast near_stops (ray [6, 7, 8]) (pointer_at 1 1) three_objects))
   \<and> (1, mk_event Pointerenter (pointer_at 2 2) (0, 0) (hit 8))
        \<in> set (events_for Pointerenter 8
             (since (processRaycast near_stops (ray [6, 7, 8]) (pointer_at 1 1) three_objects)
                (onPointerMove near_stops (ray [6, 7, 8]) (pointer_at 2 2)
                   (processRaycast near_stops (ray [6, 7, 8]) (pointer_at 1 1) three_objects))))"
proof -
  let ?sc = "ray [6, 7, 8]"
  let ?e = "pointer_at 1 1"
  let ?e2 = "pointer_at 2 2"
  let ?s1 = "processRaycast near_stops ?sc ?e three_objects"
  let ?b = "before_hover near_stops ?sc ?e2 ?s1"
  note defs = three_objects_def two_objects_def hovered_def hover_def performRaycast_def
    ray_def hit_def processRaycast_def before_hover_def updatePointer_def dragStep_def
    pointer_at_def mk_event_def fire_def dispatchEvent_def forEach.simps call_def
    near_stops_def new_InteractEvent_def stopPropagation_def enterLoop.simps leaveLoop.simps
    moveLoop.simps enter_broke.simps Let_def
  have hits: "performRaycast ?sc three_objects = [hit 6] @ hit 7 # [hit 8]"
    by (simp add: defs)
  have h6: "hovered three_objects 6" by (simp add: defs)
  have nb: "\<not> enter_broke near_stops ?e [hit 6] three_objects" by (simp add: defs)
  have w1: "enterLoop near_stops ?e [hit 6] three_objects = three_objects"
    by (simp add: defs)
  have o: "object (hit 7) = 7" "object (hit 8) = 8" "8 \<noteq> object (hit 7)"
    "8 \<notin> object ` set [hit 6]" "8 \<notin> object ` set [hit 6, hit 7]"
    by (simp_all add: hit_def)
  have r: "map_of (interactables (manager three_objects)) 7 = Some 0" by (simp add: defs)
  have nh: "\<not> hovered three_objects 7" "\<not> hovered three_objects 8" by (simp_all add: defs)
  have st: "fst (fire near_stops 0 (mk_event Pointerenter ?e (0, 0) (hit 7))
             (hover 7 three_objects))"
    "stopped (fst (snd (fire near_stops 0 (mk_event Pointerenter ?e (0, 0) (hit 7))
             (hover 7 three_objects))))"
    by (simp_all add: defs)
  from enter_stop_hides_farther [where sc = ?sc and w = three_objects and pre = "[hit 6]"
      and i = "hit 7" and rest = "[hit 8]" and beh = near_stops and e = ?e and r = 0,
      THEN conjunct1] hits nb w1 o r nh st
  have first: "events_for Pointerenter 8 (since three_objects ?s1) = []
      \<and> \<not> hovered ?s1 8"
    by simp
  have hits2: "performRaycast ?sc ?b = [hit 6, hit 7] @ hit 8 # []"
    by (simp add: defs)
  have nb2: "\<not> enter_broke near_stops ?e2 [hit 6, hit 7] ?b"
    by (simp add: defs)
  have r2: "map_of (interactables (manager (enterLoop near_stops ?e2 [hit 6, hit 7] ?b))) 8
      = Some 1"
    by (simp add: defs)
  from enter_stop_hides_farther [where sc = ?sc and w = three_objects and pre = "[hit 6]"
      and i = "hit 7" and rest = "[hit 8]" and beh = near_stops and e = ?e and r = 0
      and F = 8 and ?sc2.0 = ?sc and ?e2.0 = ?e2 and ?pre2.0 = "[hit 6, hit 7]"
      and ?j2.0 = "hit 8" and ?post2.0 = "[]" and rF = 1,
      THEN conjunct2, THEN conjunct2, THEN conjunct2, THEN conjunct2, THEN conjunct2,
      THEN conjunct2]
    hits nb w1 o r nh st hits2 nb2 r2
  have second: "(1, mk_event Pointerenter ?e2 (0, 0) (hit 8))
        \<in> set (events_for Pointerenter 8 (since ?s1 (onPointerMove near_stops ?sc ?e2 ?s1)))"
    by (simp add: Let_def)
  from hits h6 nb st first hits2 nb2 second show ?thesis by simp
qed

theorem stopping_handler_that_unregisters_itself:
  "performRaycast (ray [7, 8]) two_objects = [hit 7, hit 8]
   \<and> stopped (fst (snd (fire stop_once 0 (mk_event Pointerenter (pointer_at 0 0) (0, 0) (hit 7))
        (hover 7 two_objects))))
   \<and> map fst (events_for Pointerenter 8
        (since two_objects (processRaycast stop_once (ray [7, 8]) (pointer_at 0 0) two_objects)))
       = [1]
   \<and> hovered (processRaycast stop_once (ray [7, 8]) (pointer_at 0 0) two_objects) 8
   \<and> events_for Pointerenter 8
        (since (processRaycast stop_once (ray [7, 8]) (pointer_at 0 0) two_objects)
           (processRaycast stop_once (ray [7, 8]) (pointer_at 0 0)
              (processRaycast stop_once (ray [7, 8]) (pointer_at 0 0) two_objects)))
       = []"
  by (simp add: two_objects_def hovered_def hover_def performRaycast_def ray_def hit_def
      processRaycast_def pointer_at_def mk_event_def off_def set_handlers_def splice1_def
      fire_def dispatchEvent_def forEach.simps call_def stop_once_def new_InteractEvent_def
      stopPropagation_def since_def events_for_def dispatches_def enterLoop.simps
      leaveLoop.simps Let_def)

end
